theory Spec2Isabelle
  imports
    Complex_Main
    "HOL-Library.Char_ord"
    "HOL-Library.List_Lexorder"
    "HOL-Library.Multiset"
begin

section \<open>Collaboration networks of the silver layer\<close>

text \<open>
  This theory embeds \<^verbatim>\<open>process_collaboration_networks\<close> of
  \<^verbatim>\<open>src/silver/collaboration_networks.py\<close>. The function reads four lists of
  JSON records (issues, pull requests, commits, issue events), collects the contributors
  of every repository, links every two contributors of a repository by an edge, and
  saves five derived collections. The four lists are the arguments of the model and the
  saved collections are its result; reading and writing the files is left out.
\<close>

subsection \<open>JSON values and the dictionary operations of Python\<close>

text \<open>
  The fields the function reads hold a string, an object or \<^verbatim>\<open>null\<close> in the
  payloads of the platform, so a value is one of these three. An object keeps its
  entries in order; looking a key up finds its first entry. Strings are compared as
  Python compares them, character by character.
\<close>

datatype json = JNull | JStr string | JObj "(string \<times> json) list"

type_synonym pydict = "(string \<times> json) list"

datatype py_error = AttributeError | TypeError | ZeroDivisionError

text \<open>\<^verbatim>\<open>k in d\<close> for a dictionary \<open>d\<close>.\<close>

definition has_key :: "string \<Rightarrow> pydict \<Rightarrow> bool" where
  "has_key k d = (k \<in> set (map fst d))"

text \<open>\<^verbatim>\<open>d.get(k, default)\<close> for a dictionary \<open>d\<close>.\<close>

definition dict_get :: "pydict \<Rightarrow> string \<Rightarrow> json \<Rightarrow> json" where
  "dict_get d k dflt = (case map_of d k of None \<Rightarrow> dflt | Some v \<Rightarrow> v)"

text \<open>
  \<^verbatim>\<open>v.get(k)\<close> for any value \<open>v\<close>: only a dictionary has the method, and the
  default is \<^verbatim>\<open>None\<close>.
\<close>

definition get :: "json \<Rightarrow> string \<Rightarrow> py_error + json" where
  "get v k = (case v of JObj d \<Rightarrow> Inr (dict_get d k JNull) | _ \<Rightarrow> Inl AttributeError)"

text \<open>The truth value of a value in a condition.\<close>

definition truthy :: "json \<Rightarrow> bool" where
  "truthy v = (case v of JNull \<Rightarrow> False | JStr s \<Rightarrow> s \<noteq> [] | JObj d \<Rightarrow> d \<noteq> [])"

text \<open>A dictionary cannot be hashed, so it is neither a key nor a member of a set.\<close>

definition hashable :: "json \<Rightarrow> bool" where
  "hashable v = (case v of JObj d \<Rightarrow> False | _ \<Rightarrow> True)"

subsection \<open>Dictionaries of sets and of lists\<close>

text \<open>
  A \<^verbatim>\<open>defaultdict\<close> is an association list in the order in which its keys were
  first used, which is the order Python iterates in. A set is the list of its members
  in the order in which they were added. The order in which Python iterates over a set
  of strings depends on their hashes; it is a parameter \<open>so\<close> of the model, which
  maps a set to the list that \<^verbatim>\<open>list(s)\<close> returns.
\<close>

definition set_add :: "'a \<Rightarrow> 'a list \<Rightarrow> 'a list" where
  "set_add x s = (if x \<in> set s then s else s @ [x])"

text \<open>\<^verbatim>\<open>d[k].add(v)\<close> for a \<^verbatim>\<open>defaultdict(set)\<close>.\<close>

fun dd_add :: "'k \<Rightarrow> 'v \<Rightarrow> ('k \<times> 'v list) list \<Rightarrow> ('k \<times> 'v list) list" where
  "dd_add k v [] = [(k, [v])]"
| "dd_add k v ((k', s) # rest) =
     (if k' = k then (k', set_add v s) # rest else (k', s) # dd_add k v rest)"

text \<open>\<^verbatim>\<open>d[k].append(v)\<close> for a \<^verbatim>\<open>defaultdict(list)\<close>.\<close>

fun dd_append :: "'k \<Rightarrow> 'v \<Rightarrow> ('k \<times> 'v list) list \<Rightarrow> ('k \<times> 'v list) list" where
  "dd_append k v [] = [(k, [v])]"
| "dd_append k v ((k', s) # rest) =
     (if k' = k then (k', s @ [v]) # rest else (k', s) # dd_append k v rest)"

text \<open>The value stored under a key, the empty collection when the key is not there.\<close>

definition dd_lookup :: "('k \<times> 'v list) list \<Rightarrow> 'k \<Rightarrow> 'v list" where
  "dd_lookup d k = (case map_of d k of None \<Rightarrow> [] | Some s \<Rightarrow> s)"

text \<open>A loop whose body may raise: the first error ends it.\<close>

fun fold_err :: "('a \<Rightarrow> 's \<Rightarrow> py_error + 's) \<Rightarrow> 'a list \<Rightarrow> 's \<Rightarrow> py_error + 's" where
  "fold_err f [] s = Inr s"
| "fold_err f (x # xs) s = (case f x s of Inl e \<Rightarrow> Inl e | Inr s' \<Rightarrow> fold_err f xs s')"

fun map_err :: "('a \<Rightarrow> py_error + 'b) \<Rightarrow> 'a list \<Rightarrow> py_error + 'b list" where
  "map_err f [] = Inr []"
| "map_err f (x # xs) =
     (case f x of Inl e \<Rightarrow> Inl e
      | Inr y \<Rightarrow> (case map_err f xs of Inl e \<Rightarrow> Inl e | Inr ys \<Rightarrow> Inr (y # ys)))"

subsection \<open>Loading: the loop over the four lists\<close>

text \<open>
  Lines 20 to 23. The loop binds \<^verbatim>\<open>data_list\<close> to each of the four lists in turn
  and, when the list starts with a record that has the key \<^verbatim>\<open>_metadata\<close>, assigns
  the rest of the list to \<^verbatim>\<open>data_list\<close>. The assignment is to the loop variable; the
  variables \<^verbatim>\<open>issues_data\<close>, \<^verbatim>\<open>prs_data\<close>, \<^verbatim>\<open>commits_data\<close> and
  \<^verbatim>\<open>issue_events_data\<close> are not assigned in the loop.
\<close>

record load_state =
  issues_data :: "pydict list"
  prs_data :: "pydict list"
  commits_data :: "pydict list"
  issue_events_data :: "pydict list"
  data_list :: "pydict list"

definition skip_step :: "pydict list \<Rightarrow> load_state \<Rightarrow> load_state" where
  "skip_step l s =
     (let s1 = s\<lparr>data_list := l\<rparr> in
      case data_list s1 of
        [] \<Rightarrow> s1
      | first # rest \<Rightarrow> if has_key ''_metadata'' first then s1\<lparr>data_list := rest\<rparr> else s1)"

definition skip_metadata :: "load_state \<Rightarrow> load_state" where
  "skip_metadata s =
     fold skip_step [issues_data s, prs_data s, commits_data s, issue_events_data s] s"

subsection \<open>Collecting the contributors of each repository\<close>

type_synonym contributor_index = "(json \<times> string list) list"

text \<open>
  \<^verbatim>\<open>if login: repo_collaborators[repo].add(login)\<close>, for a value \<open>login\<close> already
  read. \<^verbatim>\<open>None\<close>, the empty string and the empty dictionary are false; a dictionary
  as key or as member raises \<^verbatim>\<open>TypeError\<close>.
\<close>

definition add_if_truthy :: "json \<Rightarrow> json \<Rightarrow> contributor_index \<Rightarrow> py_error + contributor_index" where
  "add_if_truthy repo login idx =
     (case login of
        JNull \<Rightarrow> Inr idx
      | JStr s \<Rightarrow>
          if s = [] then Inr idx
          else if hashable repo then Inr (dd_add repo s idx) else Inl TypeError
      | JObj d \<Rightarrow> if d = [] then Inr idx else Inl TypeError)"

text \<open>
  \<^verbatim>\<open>if rec.get(field, {}).get('login'): ...add(rec[field]['login'])\<close>, the form
  used for \<^verbatim>\<open>user\<close> (lines 31 and 38): \<^verbatim>\<open>.get('login')\<close> is called on whatever
  the field holds.
\<close>

definition collect_direct :: "string \<Rightarrow> pydict \<Rightarrow> json \<Rightarrow> contributor_index \<Rightarrow> py_error + contributor_index" where
  "collect_direct field rec repo idx =
     (case get (dict_get rec field (JObj [])) ''login'' of
        Inl e \<Rightarrow> Inl e
      | Inr login \<Rightarrow> add_if_truthy repo login idx)"

text \<open>
  \<^verbatim>\<open>if rec.get(field, {}) and rec[field].get('login'): ...add(rec[field]['login'])\<close>,
  the form used for \<^verbatim>\<open>assignee\<close>, \<^verbatim>\<open>author\<close> and \<^verbatim>\<open>actor\<close> (lines 33, 43
  and 48): \<^verbatim>\<open>.get('login')\<close> is called only when the field holds a true value.
\<close>

definition collect_guarded :: "string \<Rightarrow> pydict \<Rightarrow> json \<Rightarrow> contributor_index \<Rightarrow> py_error + contributor_index" where
  "collect_guarded field rec repo idx =
     (let a = dict_get rec field (JObj []) in
      if truthy a then
        (case get a ''login'' of
           Inl e \<Rightarrow> Inl e
         | Inr login \<Rightarrow> add_if_truthy repo login idx)
      else Inr idx)"

definition repo_of :: "pydict \<Rightarrow> json" where
  "repo_of rec = dict_get rec ''repo_name'' (JStr ''unknown'')"

definition collect_issue :: "pydict \<Rightarrow> contributor_index \<Rightarrow> py_error + contributor_index" where
  "collect_issue issue idx =
     (let repo = repo_of issue in
      case collect_direct ''user'' issue repo idx of
        Inl e \<Rightarrow> Inl e
      | Inr idx1 \<Rightarrow> collect_guarded ''assignee'' issue repo idx1)"

definition collect_pr :: "pydict \<Rightarrow> contributor_index \<Rightarrow> py_error + contributor_index" where
  "collect_pr pr idx = collect_direct ''user'' pr (repo_of pr) idx"

definition collect_commit :: "pydict \<Rightarrow> contributor_index \<Rightarrow> py_error + contributor_index" where
  "collect_commit commit idx = collect_guarded ''author'' commit (repo_of commit) idx"

definition collect_event :: "pydict \<Rightarrow> contributor_index \<Rightarrow> py_error + contributor_index" where
  "collect_event event idx = collect_guarded ''actor'' event (repo_of event) idx"

text \<open>Lines 26 to 49: the four loops, in this order, over the four lists.\<close>

definition collect_contributors :: "load_state \<Rightarrow> py_error + contributor_index" where
  "collect_contributors s =
     (case fold_err collect_issue (issues_data s) [] of
        Inl e \<Rightarrow> Inl e
      | Inr i1 \<Rightarrow>
     (case fold_err collect_pr (prs_data s) i1 of
        Inl e \<Rightarrow> Inl e
      | Inr i2 \<Rightarrow>
     (case fold_err collect_commit (commits_data s) i2 of
        Inl e \<Rightarrow> Inl e
      | Inr i3 \<Rightarrow> fold_err collect_event (issue_events_data s) i3)))"

subsection \<open>Edges between the contributors of a repository\<close>

type_synonym graph_state =
  "((string \<times> string) \<times> json list) list \<times> (string \<times> string list) list"

text \<open>\<^verbatim>\<open>tuple(sorted([user1, user2]))\<close>.\<close>

definition edge_key :: "string \<Rightarrow> string \<Rightarrow> string \<times> string" where
  "edge_key user1 user2 = (if user1 \<le> user2 then (user1, user2) else (user2, user1))"

text \<open>
  The pairs \<open>(user1, user2)\<close> that the two nested loops of lines 60 and 61 visit, in
  order: every member with every later member.
\<close>

fun pairs_after :: "'a list \<Rightarrow> ('a \<times> 'a) list" where
  "pairs_after [] = []"
| "pairs_after (x # xs) = map (Pair x) xs @ pairs_after xs"

text \<open>Lines 62 to 68, the body of the inner loop.\<close>

definition link :: "json \<Rightarrow> string \<times> string \<Rightarrow> graph_state \<Rightarrow> graph_state" where
  "link repo p st =
     (case p of (user1, user2) \<Rightarrow>
      case st of (collaboration_repos, user_collaborations) \<Rightarrow>
        if user1 \<noteq> user2 then
          (dd_append (edge_key user1 user2) repo collaboration_repos,
           dd_add user2 user1 (dd_add user1 user2 user_collaborations))
        else st)"

definition link_repo :: "(string list \<Rightarrow> string list) \<Rightarrow> json \<times> string list \<Rightarrow> graph_state \<Rightarrow> graph_state" where
  "link_repo so rc st =
     (case rc of (repo, contributors) \<Rightarrow>
        let contributors_list = so contributors in
        fold (link repo) (pairs_after contributors_list) st)"

definition build_graph :: "(string list \<Rightarrow> string list) \<Rightarrow> contributor_index \<Rightarrow> graph_state" where
  "build_graph so repo_collaborators = fold (link_repo so) repo_collaborators ([], [])"

subsection \<open>The saved collections\<close>

record edge =
  source :: string
  target :: string
  weight :: int
  repos :: "json list"
  collaboration_type :: string

record user_metric =
  user :: string
  collaborator_count :: int
  collaborators :: "string list"
  repositories_contributed :: int

record repo_profile =
  repo :: json
  contributor_count :: int
  contributors :: "string list"
  potential_collaborations :: int
  actual_collaborations :: int
  collaboration_density :: rat

text \<open>The field \<open>hub_user\<close> is the key \<^verbatim>\<open>user\<close> of a hub entry.\<close>

record hub =
  hub_user :: string
  repositories :: "json list"
  repo_count :: int
  total_collaborators :: int

record network_stats =
  total_users :: int
  total_collaborations :: int
  total_repositories :: int
  cross_repo_contributors :: int
  avg_collaborators_per_user :: rat
  avg_contributors_per_repo :: rat

text \<open>
  What the function saves: four lists and the summary. The list of hubs is saved only
  when it is not empty (line 149), so it is optional.
\<close>

record saved =
  collaboration_edges :: "edge list"
  user_metrics :: "user_metric list"
  repo_analysis :: "repo_profile list"
  cross_repo_list :: "hub list option"
  stats :: network_stats

text \<open>
  \<^verbatim>\<open>xs.sort(key=f, reverse=True)\<close>: descending, and elements with equal keys keep
  their order.
\<close>

definition sort_desc :: "('a \<Rightarrow> int) \<Rightarrow> 'a list \<Rightarrow> 'a list" where
  "sort_desc f xs = sort_key (\<lambda>x. - f x) xs"

text \<open>
  \<^verbatim>\<open>a / b\<close> on integers. Python rounds the quotient to a float; the model keeps the
  quotient itself. The quotients 0 and 1 are the same in both.
\<close>

definition truediv :: "int \<Rightarrow> int \<Rightarrow> py_error + rat" where
  "truediv a b = (if b = 0 then Inl ZeroDivisionError else Inr (of_int a / of_int b))"

definition mk_edge :: "(string \<times> string) \<times> json list \<Rightarrow> edge" where
  "mk_edge kv =
     (case kv of ((s, t), rs) \<Rightarrow>
        \<lparr>source = s, target = t, weight = int (length rs), repos = rs,
         collaboration_type = ''same_repository''\<rparr>)"

text \<open>Lines 70 to 82.\<close>

definition edges_of :: "((string \<times> string) \<times> json list) list \<Rightarrow> edge list" where
  "edges_of collaboration_repos = sort_desc weight (map mk_edge collaboration_repos)"

text \<open>
  \<^verbatim>\<open>[repo for repo, contributors in repo_collaborators.items() if user in contributors]\<close>
\<close>

definition repos_contributed :: "contributor_index \<Rightarrow> string \<Rightarrow> json list" where
  "repos_contributed repo_collaborators u =
     map fst (filter (\<lambda>rc. u \<in> set (snd rc)) repo_collaborators)"

definition mk_user_metric ::
  "(string list \<Rightarrow> string list) \<Rightarrow> contributor_index \<Rightarrow> string \<times> string list \<Rightarrow> user_metric" where
  "mk_user_metric so repo_collaborators uc =
     (case uc of (u, cs) \<Rightarrow>
        \<lparr>user = u, collaborator_count = int (length cs), collaborators = so cs,
         repositories_contributed = int (length (repos_contributed repo_collaborators u))\<rparr>)"

text \<open>Lines 94 to 103.\<close>

definition user_metrics_of ::
  "(string list \<Rightarrow> string list) \<Rightarrow> contributor_index \<Rightarrow> (string \<times> string list) list \<Rightarrow> user_metric list" where
  "user_metrics_of so repo_collaborators user_collaborations =
     sort_desc collaborator_count (map (mk_user_metric so repo_collaborators) user_collaborations)"

text \<open>Lines 114 to 127, the body of the loop over the repositories.\<close>

definition mk_repo_profile ::
  "(string list \<Rightarrow> string list) \<Rightarrow> edge list \<Rightarrow> json \<times> string list \<Rightarrow> py_error + repo_profile" where
  "mk_repo_profile so es rc =
     (case rc of (r, cs) \<Rightarrow>
        let contributors_list = so cs;
            n = int (length contributors_list);
            potential = n * (n - 1) div 2;
            actual = int (length (filter (\<lambda>e. r \<in> set (repos e)) es))
        in (case (if potential > 0 then truediv actual potential else Inr 0) of
              Inl e \<Rightarrow> Inl e
            | Inr density \<Rightarrow>
                Inr \<lparr>repo = r, contributor_count = n, contributors = contributors_list,
                     potential_collaborations = potential, actual_collaborations = actual,
                     collaboration_density = density\<rparr>))"

text \<open>Lines 112 to 129.\<close>

definition repo_analysis_of ::
  "(string list \<Rightarrow> string list) \<Rightarrow> edge list \<Rightarrow> contributor_index \<Rightarrow> py_error + repo_profile list" where
  "repo_analysis_of so es repo_collaborators =
     (case map_err (mk_repo_profile so es) repo_collaborators of
        Inl e \<Rightarrow> Inl e
      | Inr ps \<Rightarrow> Inr (sort_desc contributor_count ps))"

definition mk_hub :: "contributor_index \<Rightarrow> string \<times> string list \<Rightarrow> hub" where
  "mk_hub repo_collaborators uc =
     (case uc of (u, cs) \<Rightarrow>
        let rs = repos_contributed repo_collaborators u in
        \<lparr>hub_user = u, repositories = rs, repo_count = int (length rs),
         total_collaborators = int (length cs)\<rparr>)"

text \<open>
  Lines 138 to 147: the entries of \<^verbatim>\<open>cross_repo_contributors\<close>, one for each key of
  \<^verbatim>\<open>user_collaborations\<close> that passes the test, in the order of the keys.
\<close>

definition cross_repo_of :: "contributor_index \<Rightarrow> (string \<times> string list) list \<Rightarrow> hub list" where
  "cross_repo_of repo_collaborators user_collaborations =
     map (mk_hub repo_collaborators)
       (filter (\<lambda>uc. int (length (repos_contributed repo_collaborators (fst uc))) > 1)
          user_collaborations)"

text \<open>Lines 149 to 151.\<close>

definition hubs_of :: "hub list \<Rightarrow> hub list option" where
  "hubs_of cross = (if cross \<noteq> [] then Some (sort_desc repo_count cross) else None)"

text \<open>\<^verbatim>\<open>sum(len(v) for v in d.values()) / len(d) if d else 0\<close>.\<close>

definition average_size :: "('k \<times> 'v list) list \<Rightarrow> py_error + rat" where
  "average_size d =
     (if d \<noteq> [] then truediv (sum_list (map (\<lambda>kv. int (length (snd kv))) d)) (int (length d))
      else Inr 0)"

text \<open>Lines 160 to 167.\<close>

definition network_stats_of ::
  "contributor_index \<Rightarrow> (string \<times> string list) list \<Rightarrow> edge list \<Rightarrow> hub list \<Rightarrow> py_error + network_stats" where
  "network_stats_of repo_collaborators user_collaborations es cross =
     (case average_size user_collaborations of
        Inl e \<Rightarrow> Inl e
      | Inr avg_u \<Rightarrow>
     (case average_size repo_collaborators of
        Inl e \<Rightarrow> Inl e
      | Inr avg_r \<Rightarrow>
          Inr \<lparr>total_users = int (length user_collaborations),
               total_collaborations = int (length es),
               total_repositories = int (length repo_collaborators),
               cross_repo_contributors = int (length cross),
               avg_collaborators_per_user = avg_u,
               avg_contributors_per_repo = avg_r\<rparr>))"

text \<open>Lines 51 to 173, from the contributors of each repository to what is saved.\<close>

definition analyse :: "(string list \<Rightarrow> string list) \<Rightarrow> contributor_index \<Rightarrow> py_error + saved" where
  "analyse so repo_collaborators =
     (let g = build_graph so repo_collaborators;
          collaboration_repos = fst g;
          user_collaborations = snd g;
          es = edges_of collaboration_repos;
          ums = user_metrics_of so repo_collaborators user_collaborations;
          cross = cross_repo_of repo_collaborators user_collaborations
      in (case repo_analysis_of so es repo_collaborators of
            Inl e \<Rightarrow> Inl e
          | Inr ras \<Rightarrow>
         (case network_stats_of repo_collaborators user_collaborations es cross of
            Inl e \<Rightarrow> Inl e
          | Inr ns \<Rightarrow>
              Inr \<lparr>collaboration_edges = es, user_metrics = ums, repo_analysis = ras,
                   cross_repo_list = hubs_of cross, stats = ns\<rparr>)))"

text \<open>The whole function, on the four lists it has loaded.\<close>

definition process_collaboration_networks ::
  "(string list \<Rightarrow> string list) \<Rightarrow> pydict list \<Rightarrow> pydict list \<Rightarrow> pydict list \<Rightarrow> pydict list
     \<Rightarrow> py_error + saved" where
  "process_collaboration_networks so issues prs commits events =
     (let s = skip_metadata
                \<lparr>issues_data = issues, prs_data = prs, commits_data = commits,
                 issue_events_data = events, data_list = []\<rparr>
      in (case collect_contributors s of
            Inl e \<Rightarrow> Inl e
          | Inr repo_collaborators \<Rightarrow> analyse so repo_collaborators))"

text \<open>The contributors of each repository that the function computes on the way.\<close>

definition contributors_index ::
  "pydict list \<Rightarrow> pydict list \<Rightarrow> pydict list \<Rightarrow> pydict list \<Rightarrow> py_error + contributor_index" where
  "contributors_index issues prs commits events =
     collect_contributors
       (skip_metadata
          \<lparr>issues_data = issues, prs_data = prs, commits_data = commits,
           issue_events_data = events, data_list = []\<rparr>)"

text \<open>
  An order of iteration lists the members of a set, each once: it is a permutation of
  the members.
\<close>

definition set_order_ok :: "(string list \<Rightarrow> string list) \<Rightarrow> bool" where
  "set_order_ok so = (\<forall>xs. mset (so xs) = mset xs)"

subsection \<open>Invariants of the loops\<close>

text \<open>
  What the four loops of lines 29 to 49 keep true of \<^verbatim>\<open>repo_collaborators\<close>: its
  keys are distinct, and the contributors of a repository are listed once each and are
  not empty.
\<close>

definition index_ok :: "contributor_index \<Rightarrow> bool" where
  "index_ok idx \<longleftrightarrow>
     distinct (map fst idx) \<and> (\<forall>rc\<in>set idx. snd rc \<noteq> [] \<and> distinct (snd rc))"

text \<open>
  What the loop of lines 56 to 68 keeps true of its two dictionaries: the keys of each
  are distinct, no key has an empty value, the two logins of a key of
  \<^verbatim>\<open>collaboration_repos\<close> are in ascending order, and no set of collaborators
  lists a login twice.
\<close>

definition graph_ok :: "graph_state \<Rightarrow> bool" where
  "graph_ok st \<longleftrightarrow>
     distinct (map fst (fst st)) \<and> distinct (map fst (snd st)) \<and>
     (\<forall>kv\<in>set (fst st). snd kv \<noteq> [] \<and> fst (fst kv) < snd (fst kv)) \<and>
     (\<forall>kv\<in>set (snd st). snd kv \<noteq> [] \<and> distinct (snd kv))"

subsection \<open>Reading what is saved\<close>

text \<open>
  The entries of the list of hubs; there are none when the list is not saved.
\<close>

definition hubs :: "saved \<Rightarrow> hub list" where
  "hubs out = (case cross_repo_list out of None \<Rightarrow> [] | Some hs \<Rightarrow> hs)"

text \<open>\<open>is_collaborator out a b\<close>: the saved profile of \<open>a\<close> lists \<open>b\<close> as a collaborator.\<close>

definition is_collaborator :: "saved \<Rightarrow> string \<Rightarrow> string \<Rightarrow> bool" where
  "is_collaborator out a b \<longleftrightarrow>
     (\<exists>m\<in>set (user_metrics out). user m = a \<and> b \<in> set (collaborators m))"

text \<open>\<open>joined out a b\<close>: a saved edge has \<open>a\<close> and \<open>b\<close> as its two ends.\<close>

definition joined :: "saved \<Rightarrow> string \<Rightarrow> string \<Rightarrow> bool" where
  "joined out a b \<longleftrightarrow>
     (\<exists>x\<in>set (collaboration_edges out).
        (source x = a \<and> target x = b) \<or> (source x = b \<and> target x = a))"

subsection \<open>Two runs\<close>

text \<open>
  A run on records of the four kinds: \<^verbatim>\<open>alice\<close> and \<^verbatim>\<open>bob\<close> work on
  \<^verbatim>\<open>R1\<close> and \<^verbatim>\<open>R2\<close>, \<^verbatim>\<open>carol\<close> on \<^verbatim>\<open>R2\<close>, \<^verbatim>\<open>dave\<close> alone on
  \<^verbatim>\<open>R3\<close>, and one commit has no author. Below are the contributors the loops collect
  and what the function saves when sets are iterated in the order of insertion.
\<close>

definition example_issues :: "pydict list" where
  "example_issues =
     [[(''repo_name'', JStr ''R1''), (''user'', JObj [(''login'', JStr ''alice'')])],
      [(''repo_name'', JStr ''R2''), (''user'', JObj [(''login'', JStr ''alice'')]),
       (''assignee'', JObj [(''login'', JStr ''carol'')])]]"

definition example_prs :: "pydict list" where
  "example_prs =
     [[(''repo_name'', JStr ''R1''), (''user'', JObj [(''login'', JStr ''bob'')])]]"

definition example_commits :: "pydict list" where
  "example_commits =
     [[(''repo_name'', JStr ''R2''), (''author'', JNull)],
      [(''repo_name'', JStr ''R3''), (''author'', JObj [(''login'', JStr ''dave'')])]]"

definition example_events :: "pydict list" where
  "example_events =
     [[(''repo_name'', JStr ''R2''), (''actor'', JObj [(''login'', JStr ''bob'')])],
      [(''repo_name'', JStr ''R1''), (''actor'', JObj [(''login'', JStr ''alice'')])]]"

definition example_index :: contributor_index where
  "example_index =
     [(JStr ''R1'', [''alice'', ''bob'']), (JStr ''R2'', [''alice'', ''carol'', ''bob'']),
      (JStr ''R3'', [''dave''])]"

definition example_saved :: saved where
  "example_saved =
     \<lparr>collaboration_edges =
        [\<lparr>source = ''alice'', target = ''bob'', weight = 2,
           repos = [JStr ''R1'', JStr ''R2''], collaboration_type = ''same_repository''\<rparr>,
         \<lparr>source = ''alice'', target = ''carol'', weight = 1,
           repos = [JStr ''R2''], collaboration_type = ''same_repository''\<rparr>,
         \<lparr>source = ''bob'', target = ''carol'', weight = 1,
           repos = [JStr ''R2''], collaboration_type = ''same_repository''\<rparr>],
      user_metrics =
        [\<lparr>user = ''alice'', collaborator_count = 2, collaborators = [''bob'', ''carol''],
           repositories_contributed = 2\<rparr>,
         \<lparr>user = ''bob'', collaborator_count = 2, collaborators = [''alice'', ''carol''],
           repositories_contributed = 2\<rparr>,
         \<lparr>user = ''carol'', collaborator_count = 2, collaborators = [''alice'', ''bob''],
           repositories_contributed = 1\<rparr>],
      repo_analysis =
        [\<lparr>repo = JStr ''R2'', contributor_count = 3,
           contributors = [''alice'', ''carol'', ''bob''],
           potential_collaborations = 3, actual_collaborations = 3,
           collaboration_density = 1\<rparr>,
         \<lparr>repo = JStr ''R1'', contributor_count = 2, contributors = [''alice'', ''bob''],
           potential_collaborations = 1, actual_collaborations = 1,
           collaboration_density = 1\<rparr>,
         \<lparr>repo = JStr ''R3'', contributor_count = 1, contributors = [''dave''],
           potential_collaborations = 0, actual_collaborations = 0,
           collaboration_density = 0\<rparr>],
      cross_repo_list =
        Some
         [\<lparr>hub_user = ''alice'', repositories = [JStr ''R1'', JStr ''R2''], repo_count = 2,
            total_collaborators = 2\<rparr>,
          \<lparr>hub_user = ''bob'', repositories = [JStr ''R1'', JStr ''R2''], repo_count = 2,
            total_collaborators = 2\<rparr>],
      stats =
        \<lparr>total_users = 3, total_collaborations = 3, total_repositories = 3,
         cross_repo_contributors = 2, avg_collaborators_per_user = 2,
         avg_contributors_per_repo = 2\<rparr>\<rparr>"

text \<open>What the function saves when the four lists are empty.\<close>

definition empty_saved :: saved where
  "empty_saved =
     \<lparr>collaboration_edges = [], user_metrics = [], repo_analysis = [], cross_repo_list = None,
      stats = \<lparr>total_users = 0, total_collaborations = 0, total_repositories = 0,
        cross_repo_contributors = 0, avg_collaborators_per_user = 0,
        avg_contributors_per_repo = 0\<rparr>\<rparr>"

section \<open>Properties of the loops\<close>

subsection \<open>Dictionaries of sets and of lists\<close>

lemma dd_lookup_Nil: "dd_lookup [] k = []"
  by (simp add: dd_lookup_def)

lemma dd_lookup_add:
  "dd_lookup (dd_add k v d) k' = (if k' = k then set_add v (dd_lookup d k) else dd_lookup d k')"
  by (induction d) (auto simp: dd_lookup_def set_add_def)

lemma dd_lookup_append:
  "dd_lookup (dd_append k v d) k' = (if k' = k then dd_lookup d k @ [v] else dd_lookup d k')"
  by (induction d) (auto simp: dd_lookup_def)

lemma keys_dd_add: "fst ` set (dd_add k v d) = insert k (fst ` set d)"
  by (induction d) (auto simp: rev_image_eqI split: if_splits)

lemma keys_dd_append: "fst ` set (dd_append k v d) = insert k (fst ` set d)"
  by (induction d) (auto simp: rev_image_eqI split: if_splits)

lemma distinct_keys_dd_add: "distinct (map fst d) \<Longrightarrow> distinct (map fst (dd_add k v d))"
  by (induction d) (auto simp: keys_dd_add)

lemma distinct_keys_dd_append: "distinct (map fst d) \<Longrightarrow> distinct (map fst (dd_append k v d))"
  by (induction d) (auto simp: keys_dd_append)

lemma set_set_add: "set (set_add x s) = insert x (set s)"
  by (auto simp: set_add_def)

lemma distinct_set_add: "distinct s \<Longrightarrow> distinct (set_add x s)"
  by (simp add: set_add_def)

lemma set_add_nonempty: "set_add x s \<noteq> []"
  by (auto simp: set_add_def)

lemma vals_dd_add:
  "kv \<in> set (dd_add k v d) \<Longrightarrow> kv \<in> set d \<or> (fst kv = k \<and> snd kv = set_add v (dd_lookup d k))"
  by (induction d) (auto simp: dd_lookup_def set_add_def split: if_splits)

lemma vals_dd_append:
  "kv \<in> set (dd_append k v d) \<Longrightarrow> kv \<in> set d \<or> (fst kv = k \<and> snd kv = dd_lookup d k @ [v])"
  by (induction d) (auto simp: dd_lookup_def split: if_splits)

lemma dd_lookup_in:
  "distinct (map fst d) \<Longrightarrow> (k, s) \<in> set d \<Longrightarrow> dd_lookup d k = s"
  by (simp add: dd_lookup_def)

lemma dd_lookup_distinct:
  "\<forall>kv\<in>set d. distinct (snd kv) \<Longrightarrow> distinct (dd_lookup d k)"
  by (fastforce simp: dd_lookup_def split: option.splits dest: map_of_SomeD)

lemma key_iff_lookup:
  "\<forall>kv\<in>set d. snd kv \<noteq> [] \<Longrightarrow> k \<in> fst ` set d \<longleftrightarrow> dd_lookup d k \<noteq> []"
  by (induction d) (auto simp: dd_lookup_def)

subsection \<open>Keys of edges and the pairs of the nested loops\<close>

lemma edge_key_less: "u1 \<noteq> u2 \<Longrightarrow> fst (edge_key u1 u2) < snd (edge_key u1 u2)"
  by (auto simp: edge_key_def)

lemma edge_key_eq_iff:
  "a < b \<Longrightarrow> edge_key u1 u2 = (a, b) \<longleftrightarrow> (u1 = a \<and> u2 = b) \<or> (u1 = b \<and> u2 = a)"
  by (auto simp: edge_key_def)

lemma pairs_after_subset: "(a, b) \<in> set (pairs_after xs) \<Longrightarrow> a \<in> set xs \<and> b \<in> set xs"
  by (induction xs) auto

lemma pairs_after_total:
  "a \<in> set xs \<Longrightarrow> b \<in> set xs \<Longrightarrow> a \<noteq> b \<Longrightarrow>
     (a, b) \<in> set (pairs_after xs) \<or> (b, a) \<in> set (pairs_after xs)"
  by (induction xs) auto

lemma triangle_step: "(n::int) + n * (n - 1) div 2 = (n + 1) * n div 2"
proof -
  have "n + n * (n - 1) div 2 = (n * 2 + n * (n - 1)) div 2"
    by simp
  also have "n * 2 + n * (n - 1) = (n + 1) * n"
    by (simp add: algebra_simps)
  finally show ?thesis .
qed

lemma length_pairs_after:
  "int (length (pairs_after xs)) = int (length xs) * (int (length xs) - 1) div 2"
proof (induction xs)
  case Nil
  show ?case by simp
next
  case (Cons x xs)
  have "int (length (pairs_after (x # xs)))
        = int (length xs) + int (length xs) * (int (length xs) - 1) div 2"
    using Cons by simp
  also have "\<dots> = (int (length xs) + 1) * int (length xs) div 2"
    by (rule triangle_step)
  also have "\<dots> = int (length (x # xs)) * (int (length (x # xs)) - 1) div 2"
    by (simp add: add.commute)
  finally show ?case .
qed

lemma distinct_pairs_after: "distinct xs \<Longrightarrow> distinct (pairs_after xs)"
  by (induction xs) (auto simp: distinct_map inj_on_def dest: pairs_after_subset)

lemma pairs_after_irrefl: "distinct xs \<Longrightarrow> (a, b) \<in> set (pairs_after xs) \<Longrightarrow> a \<noteq> b"
  by (induction xs) (auto dest: pairs_after_subset)

lemma pairs_after_asym:
  "distinct xs \<Longrightarrow> (a, b) \<in> set (pairs_after xs) \<Longrightarrow> (b, a) \<notin> set (pairs_after xs)"
  by (induction xs) (auto dest: pairs_after_subset)

subsection \<open>The loops that link the contributors\<close>

lemma fst_link:
  "fst (link r p st) =
     (if fst p \<noteq> snd p then dd_append (edge_key (fst p) (snd p)) r (fst st) else fst st)"
  by (cases p; cases st) (simp add: link_def)

lemma snd_link:
  "snd (link r p st) =
     (if fst p \<noteq> snd p then dd_add (snd p) (fst p) (dd_add (fst p) (snd p) (snd st)) else snd st)"
  by (cases p; cases st) (simp add: link_def)

lemma dd_add_vals_ok:
  assumes "\<forall>kv\<in>set d. snd kv \<noteq> [] \<and> distinct (snd kv)"
  shows "\<forall>kv\<in>set (dd_add k v d). snd kv \<noteq> [] \<and> distinct (snd kv)"
proof
  fix kv
  assume "kv \<in> set (dd_add k v d)"
  then consider "kv \<in> set d" | "snd kv = set_add v (dd_lookup d k)"
    using vals_dd_add[of kv k v d] by auto
  then show "snd kv \<noteq> [] \<and> distinct (snd kv)"
  proof cases
    case 1
    then show ?thesis using assms by blast
  next
    case 2
    have "distinct (dd_lookup d k)"
      using assms by (intro dd_lookup_distinct) blast
    then show ?thesis
      using 2 by (simp add: set_add_nonempty distinct_set_add)
  qed
qed

lemma dd_append_vals_ok:
  assumes "\<forall>kv\<in>set d. snd kv \<noteq> [] \<and> P (fst kv)" and "P k"
  shows "\<forall>kv\<in>set (dd_append k v d). snd kv \<noteq> [] \<and> P (fst kv)"
proof
  fix kv
  assume "kv \<in> set (dd_append k v d)"
  then consider "kv \<in> set d" | "fst kv = k \<and> snd kv = dd_lookup d k @ [v]"
    using vals_dd_append[of kv k v d] by auto
  then show "snd kv \<noteq> [] \<and> P (fst kv)"
  proof cases
    case 1
    then show ?thesis using assms by blast
  next
    case 2
    then show ?thesis using assms(2) by simp
  qed
qed

lemma graph_ok_link: "graph_ok st \<Longrightarrow> graph_ok (link r p st)"
proof -
  assume ok: "graph_ok st"
  show ?thesis
  proof (cases "fst p = snd p")
    case True
    then show ?thesis using ok by (simp add: graph_ok_def fst_link snd_link)
  next
    case False
    have 1: "distinct (map fst (dd_append (edge_key (fst p) (snd p)) r (fst st)))"
      using ok by (simp add: graph_ok_def distinct_keys_dd_append)
    have 2: "distinct (map fst (dd_add (snd p) (fst p) (dd_add (fst p) (snd p) (snd st))))"
      using ok by (simp add: graph_ok_def distinct_keys_dd_add)
    have 3: "\<forall>kv\<in>set (dd_append (edge_key (fst p) (snd p)) r (fst st)).
               snd kv \<noteq> [] \<and> fst (fst kv) < snd (fst kv)"
      using ok False
      by (intro dd_append_vals_ok[where P = "\<lambda>k. fst k < snd k"])
         (simp_all add: graph_ok_def edge_key_less)
    have 4: "\<forall>kv\<in>set (dd_add (snd p) (fst p) (dd_add (fst p) (snd p) (snd st))).
               snd kv \<noteq> [] \<and> distinct (snd kv)"
      using ok by (intro dd_add_vals_ok) (simp add: graph_ok_def)
    show ?thesis
      using False 1 2 3 4 by (simp add: graph_ok_def fst_link snd_link)
  qed
qed

lemma graph_ok_fold_link: "graph_ok st \<Longrightarrow> graph_ok (fold (link r) ps st)"
  by (induction ps arbitrary: st) (simp_all add: graph_ok_link)

lemma graph_ok_link_repo: "graph_ok st \<Longrightarrow> graph_ok (link_repo so rc st)"
  by (cases rc) (simp add: link_repo_def graph_ok_fold_link)

lemma graph_ok_fold_link_repo: "graph_ok st \<Longrightarrow> graph_ok (fold (link_repo so) idx st)"
  by (induction idx arbitrary: st) (simp_all add: graph_ok_link_repo)

lemma graph_ok_build_graph: "graph_ok (build_graph so idx)"
proof -
  have "graph_ok ([], [])" by (simp add: graph_ok_def)
  then show ?thesis by (simp add: build_graph_def graph_ok_fold_link_repo)
qed

lemma fold_link_repos:
  "set (dd_lookup (fst (fold (link r) ps st)) k) =
     set (dd_lookup (fst st) k) \<union>
     {r'. r' = r \<and> (\<exists>p\<in>set ps. fst p \<noteq> snd p \<and> edge_key (fst p) (snd p) = k)}"
  by (induction ps arbitrary: st) (auto simp: fst_link dd_lookup_append)

lemma fold_link_collab:
  "set (dd_lookup (snd (fold (link r) ps st)) a) =
     set (dd_lookup (snd st) a) \<union>
     {b. a \<noteq> b \<and> ((a, b) \<in> set ps \<or> (b, a) \<in> set ps)}"
  by (induction ps arbitrary: st) (auto simp: snd_link dd_lookup_add set_set_add)

lemma fold_link_repo_repos:
  "x \<in> set (dd_lookup (fst (fold (link_repo so) idx st)) k) \<longleftrightarrow>
     x \<in> set (dd_lookup (fst st) k) \<or>
     (\<exists>rc\<in>set idx. fst rc = x \<and>
        (\<exists>p\<in>set (pairs_after (so (snd rc))). fst p \<noteq> snd p \<and> edge_key (fst p) (snd p) = k))"
proof (induction idx arbitrary: st)
  case Nil
  show ?case by simp
next
  case (Cons rc idx)
  have step: "link_repo so rc st = fold (link (fst rc)) (pairs_after (so (snd rc))) st"
    by (simp add: link_repo_def case_prod_beta)
  show ?case
    by (simp add: Cons.IH step fold_link_repos) blast
qed

lemma fold_link_repo_collab:
  "b \<in> set (dd_lookup (snd (fold (link_repo so) idx st)) a) \<longleftrightarrow>
     b \<in> set (dd_lookup (snd st) a) \<or>
     (a \<noteq> b \<and> (\<exists>rc\<in>set idx.
        (a, b) \<in> set (pairs_after (so (snd rc))) \<or> (b, a) \<in> set (pairs_after (so (snd rc)))))"
proof (induction idx arbitrary: st)
  case Nil
  show ?case by simp
next
  case (Cons rc idx)
  have step: "link_repo so rc st = fold (link (fst rc)) (pairs_after (so (snd rc))) st"
    by (simp add: link_repo_def case_prod_beta)
  show ?case
    by (simp add: Cons.IH step fold_link_collab) blast
qed

lemma joined_iff:
  "(\<exists>p\<in>set (pairs_after xs). fst p \<noteq> snd p \<and> edge_key (fst p) (snd p) = (a, b))
     \<longleftrightarrow> a < b \<and> a \<in> set xs \<and> b \<in> set xs"
proof
  assume "\<exists>p\<in>set (pairs_after xs). fst p \<noteq> snd p \<and> edge_key (fst p) (snd p) = (a, b)"
  then obtain u1 u2 where p: "(u1, u2) \<in> set (pairs_after xs)" "u1 \<noteq> u2"
    "edge_key u1 u2 = (a, b)" by auto
  from p(2,3) have "a < b" using edge_key_less[of u1 u2] by simp
  moreover from this p(3) have "(u1 = a \<and> u2 = b) \<or> (u1 = b \<and> u2 = a)"
    by (simp add: edge_key_eq_iff)
  ultimately show "a < b \<and> a \<in> set xs \<and> b \<in> set xs"
    using pairs_after_subset[OF p(1)] by auto
next
  assume h: "a < b \<and> a \<in> set xs \<and> b \<in> set xs"
  then have "(a, b) \<in> set (pairs_after xs) \<or> (b, a) \<in> set (pairs_after xs)"
    using pairs_after_total[of a xs b] by auto
  then show "\<exists>p\<in>set (pairs_after xs). fst p \<noteq> snd p \<and> edge_key (fst p) (snd p) = (a, b)"
  proof
    assume "(a, b) \<in> set (pairs_after xs)"
    then show ?thesis using h by (intro bexI[of _ "(a, b)"]) (auto simp: edge_key_def)
  next
    assume "(b, a) \<in> set (pairs_after xs)"
    then show ?thesis using h by (intro bexI[of _ "(b, a)"]) (auto simp: edge_key_def)
  qed
qed

lemma paired_iff:
  "a \<noteq> b \<Longrightarrow>
     (a, b) \<in> set (pairs_after xs) \<or> (b, a) \<in> set (pairs_after xs) \<longleftrightarrow>
     a \<in> set xs \<and> b \<in> set xs"
  using pairs_after_subset[of a b xs] pairs_after_subset[of b a xs] pairs_after_total[of a xs b]
  by blast

lemma build_graph_repos:
  "r \<in> set (dd_lookup (fst (build_graph so idx)) (a, b)) \<longleftrightarrow>
     a < b \<and> (\<exists>c. (r, c) \<in> set idx \<and> a \<in> set (so c) \<and> b \<in> set (so c))"
  unfolding build_graph_def fold_link_repo_repos joined_iff
  by (force simp: dd_lookup_Nil)

lemma build_graph_collab:
  "b \<in> set (dd_lookup (snd (build_graph so idx)) a) \<longleftrightarrow>
     a \<noteq> b \<and> (\<exists>r c. (r, c) \<in> set idx \<and> a \<in> set (so c) \<and> b \<in> set (so c))"
proof (cases "a = b")
  case True
  then show ?thesis
    by (simp add: build_graph_def fold_link_repo_collab dd_lookup_Nil)
next
  case False
  then show ?thesis
    unfolding build_graph_def fold_link_repo_collab
    by (simp add: paired_iff dd_lookup_Nil) force
qed

subsection \<open>The contributors that the four loops collect\<close>

lemmas collect_defs =
  contributors_index_def skip_metadata_def skip_step_def has_key_def collect_contributors_def
  collect_issue_def collect_pr_def collect_commit_def collect_event_def collect_direct_def
  collect_guarded_def add_if_truthy_def repo_of_def dict_get_def get_def truthy_def hashable_def
  set_add_def

lemma index_ok_Nil: "index_ok []"
  by (simp add: index_ok_def)

lemma index_ok_dd_add: "index_ok idx \<Longrightarrow> index_ok (dd_add r s idx)"
  unfolding index_ok_def using dd_add_vals_ok[of idx r s] distinct_keys_dd_add[of idx r s]
  by blast

lemma index_ok_add_if_truthy:
  "index_ok idx \<Longrightarrow> add_if_truthy r l idx = Inr idx' \<Longrightarrow> index_ok idx'"
  by (auto simp: add_if_truthy_def index_ok_dd_add split: json.splits if_splits)

lemma index_ok_collect_direct:
  "index_ok idx \<Longrightarrow> collect_direct f rec r idx = Inr idx' \<Longrightarrow> index_ok idx'"
  by (auto simp: collect_direct_def split: sum.splits dest: index_ok_add_if_truthy)

lemma index_ok_collect_guarded:
  "index_ok idx \<Longrightarrow> collect_guarded f rec r idx = Inr idx' \<Longrightarrow> index_ok idx'"
  by (auto simp: collect_guarded_def Let_def split: sum.splits if_splits
      dest: index_ok_add_if_truthy)

lemma index_ok_collect_issue:
  "index_ok idx \<Longrightarrow> collect_issue rec idx = Inr idx' \<Longrightarrow> index_ok idx'"
  by (auto simp: collect_issue_def Let_def split: sum.splits
      dest: index_ok_collect_direct index_ok_collect_guarded)

lemma fold_err_invariant:
  assumes "P s" and "fold_err f xs s = Inr s'"
    and "\<And>x s s'. P s \<Longrightarrow> f x s = Inr s' \<Longrightarrow> P s'"
  shows "P s'"
  using assms(1,2)
proof (induction xs arbitrary: s)
  case Nil
  then show ?case by simp
next
  case (Cons x xs)
  then show ?case
    by (auto split: sum.splits intro: assms(3))
qed

lemma index_ok_collect_contributors:
  assumes "collect_contributors s = Inr idx"
  shows "index_ok idx"
proof -
  from assms obtain i1 i2 i3 where
    1: "fold_err collect_issue (issues_data s) [] = Inr i1" and
    2: "fold_err collect_pr (prs_data s) i1 = Inr i2" and
    3: "fold_err collect_commit (commits_data s) i2 = Inr i3" and
    4: "fold_err collect_event (issue_events_data s) i3 = Inr idx"
    by (auto simp: collect_contributors_def split: sum.splits)
  have "index_ok i1"
    using index_ok_Nil 1 index_ok_collect_issue by (rule fold_err_invariant)
  then have "index_ok i2"
    using 2 by (rule fold_err_invariant[where f = collect_pr])
       (auto simp: collect_pr_def dest: index_ok_collect_direct)
  then have "index_ok i3"
    using 3 by (rule fold_err_invariant[where f = collect_commit])
       (auto simp: collect_commit_def dest: index_ok_collect_guarded)
  then show ?thesis
    using 4 by (rule fold_err_invariant[where f = collect_event])
       (auto simp: collect_event_def dest: index_ok_collect_guarded)
qed

lemma index_ok_contributors_index:
  "contributors_index i p c e = Inr idx \<Longrightarrow> index_ok idx"
  unfolding contributors_index_def by (rule index_ok_collect_contributors)

lemma index_lookup: "index_ok idx \<Longrightarrow> (r, c) \<in> set idx \<Longrightarrow> dd_lookup idx r = c"
  by (simp add: index_ok_def dd_lookup_in)

subsection \<open>What is saved, part by part\<close>

lemma process_Inr:
  "process_collaboration_networks so i p c e = Inr out \<Longrightarrow>
     \<exists>idx. contributors_index i p c e = Inr idx \<and> analyse so idx = Inr out"
  by (auto simp: process_collaboration_networks_def contributors_index_def Let_def
      split: sum.splits)

lemma process_analyse:
  "contributors_index i p c e = Inr idx \<Longrightarrow>
     process_collaboration_networks so i p c e = analyse so idx"
  by (simp add: process_collaboration_networks_def contributors_index_def Let_def)

lemma truediv_Inr: "b \<noteq> 0 \<Longrightarrow> truediv a b = Inr (of_int a / of_int b)"
  by (simp add: truediv_def)

lemma mk_repo_profile_Inr:
  "\<exists>p. mk_repo_profile so es rc = Inr p"
  by (cases rc) (simp add: mk_repo_profile_def Let_def truediv_def)

lemma map_err_total: "(\<And>x. \<exists>y. f x = Inr y) \<Longrightarrow> \<exists>ys. map_err f xs = Inr ys"
proof (induction xs)
  case Nil
  show ?case by simp
next
  case (Cons x xs)
  then obtain ys where "map_err f xs = Inr ys" by blast
  moreover obtain y where "f x = Inr y" using Cons.prems by blast
  ultimately show ?case by simp
qed

lemma map_err_Inr:
  "map_err f xs = Inr ys \<Longrightarrow> list_all2 (\<lambda>x y. f x = Inr y) xs ys"
  by (induction xs arbitrary: ys) (auto split: sum.splits)

lemma average_size_Inr: "\<exists>a. average_size d = Inr a"
  by (simp add: average_size_def truediv_def)

lemma repo_analysis_of_Inr: "\<exists>ras. repo_analysis_of so es idx = Inr ras"
proof -
  obtain ps where "map_err (mk_repo_profile so es) idx = Inr ps"
    using map_err_total[of "mk_repo_profile so es" idx] mk_repo_profile_Inr by blast
  then show ?thesis by (simp add: repo_analysis_of_def)
qed

lemma network_stats_of_Inr: "\<exists>ns. network_stats_of idx uc es cross = Inr ns"
proof -
  obtain a b where "average_size uc = Inr a" "average_size idx = Inr b"
    using average_size_Inr[of uc] average_size_Inr[of idx] by blast
  then show ?thesis by (simp add: network_stats_of_def)
qed

lemma analyse_total: "\<exists>out. analyse so idx = Inr out"
proof -
  obtain ras where "repo_analysis_of so (edges_of (fst (build_graph so idx))) idx = Inr ras"
    using repo_analysis_of_Inr by blast
  moreover obtain ns where
    "network_stats_of idx (snd (build_graph so idx)) (edges_of (fst (build_graph so idx)))
       (cross_repo_of idx (snd (build_graph so idx))) = Inr ns"
    using network_stats_of_Inr by blast
  ultimately show ?thesis by (simp add: analyse_def Let_def)
qed

lemma analyse_parts:
  assumes "analyse so idx = Inr out"
  shows "collaboration_edges out = edges_of (fst (build_graph so idx))"
    and "user_metrics out = user_metrics_of so idx (snd (build_graph so idx))"
    and "repo_analysis_of so (collaboration_edges out) idx = Inr (repo_analysis out)"
    and "cross_repo_list out = hubs_of (cross_repo_of idx (snd (build_graph so idx)))"
    and "network_stats_of idx (snd (build_graph so idx)) (collaboration_edges out)
           (cross_repo_of idx (snd (build_graph so idx))) = Inr (stats out)"
  using assms by (auto simp: analyse_def Let_def split: sum.splits)


subsection \<open>Sorting in descending order\<close>

lemma set_sort_desc: "set (sort_desc f xs) = set xs"
  by (simp add: sort_desc_def)

lemma mset_sort_desc: "mset (sort_desc f xs) = mset xs"
  by (simp add: sort_desc_def)

lemma length_sort_desc: "length (sort_desc f xs) = length xs"
  by (simp add: sort_desc_def)

lemma sorted_sort_desc: "sorted_wrt (\<lambda>x y. f y \<le> f x) (sort_desc f xs)"
proof -
  have "sorted (map (\<lambda>x. - f x) (sort_key (\<lambda>x. - f x) xs))"
    by (rule sorted_sort_key)
  then show ?thesis
    by (simp add: sort_desc_def sorted_map)
qed

lemma sort_desc_stable:
  "filter (\<lambda>y. f y = w) (sort_desc f xs) = filter (\<lambda>y. f y = w) xs"
  using sort_key_stable[of "\<lambda>x. - f x" "- w" xs] by (simp add: sort_desc_def)

lemma length_filter_sort_desc:
  "length (filter P (sort_desc f xs)) = length (filter P xs)"
proof -
  have "mset (filter P (sort_desc f xs)) = mset (filter P xs)"
    by (simp add: mset_sort_desc)
  then show ?thesis by (rule mset_eq_length)
qed

lemma distinct_map_sort_desc:
  "distinct (map g (sort_desc f xs)) \<longleftrightarrow> distinct (map g xs)"
proof -
  have "mset (map g (sort_desc f xs)) = mset (map g xs)"
    by (simp add: mset_sort_desc)
  then show ?thesis by (rule mset_eq_imp_distinct_iff)
qed

subsection \<open>The edges\<close>

lemma mk_edge_sel:
  "source (mk_edge kv) = fst (fst kv)" "target (mk_edge kv) = snd (fst kv)"
  "weight (mk_edge kv) = int (length (snd kv))" "repos (mk_edge kv) = snd kv"
  by (simp_all add: mk_edge_def case_prod_beta)

lemma set_edges_of: "set (edges_of cr) = mk_edge ` set cr"
  by (simp add: edges_of_def set_sort_desc)

lemma build_graph_key_iff:
  "(a, b) \<in> fst ` set (fst (build_graph so idx)) \<longleftrightarrow>
     a < b \<and> (\<exists>r c. (r, c) \<in> set idx \<and> a \<in> set (so c) \<and> b \<in> set (so c))"
proof -
  have ne: "\<forall>kv\<in>set (fst (build_graph so idx)). snd kv \<noteq> []"
    using graph_ok_build_graph[of so idx] by (simp add: graph_ok_def)
  have "(a, b) \<in> fst ` set (fst (build_graph so idx))
        \<longleftrightarrow> (\<exists>r. r \<in> set (dd_lookup (fst (build_graph so idx)) (a, b)))"
    unfolding key_iff_lookup[OF ne] by (cases "dd_lookup (fst (build_graph so idx)) (a, b)") auto
  then show ?thesis
    unfolding build_graph_repos by blast
qed

lemma build_graph_entry:
  "(k, rs) \<in> set (fst (build_graph so idx)) \<Longrightarrow> dd_lookup (fst (build_graph so idx)) k = rs"
  using graph_ok_build_graph[of so idx] by (simp add: graph_ok_def dd_lookup_in)

lemma build_graph_collab_entry:
  "(u, cs) \<in> set (snd (build_graph so idx)) \<Longrightarrow> dd_lookup (snd (build_graph so idx)) u = cs"
  using graph_ok_build_graph[of so idx] by (simp add: graph_ok_def dd_lookup_in)

lemma set_order_ok_set: "set_order_ok so \<Longrightarrow> set (so xs) = set xs"
  by (metis set_order_ok_def mset_eq_setD)

lemma set_order_ok_length: "set_order_ok so \<Longrightarrow> length (so xs) = length xs"
  by (metis set_order_ok_def mset_eq_length)

lemma set_order_ok_distinct: "set_order_ok so \<Longrightarrow> distinct (so xs) \<longleftrightarrow> distinct xs"
  by (metis set_order_ok_def mset_eq_imp_distinct_iff)

lemma set_order_ok_id: "set_order_ok (\<lambda>xs. xs)"
  by (simp add: set_order_ok_def)


lemma example_index_run:
  "contributors_index example_issues example_prs example_commits example_events
     = Inr example_index"
  by code_simp

lemma example_run:
  "process_collaboration_networks (\<lambda>xs. xs)
     example_issues example_prs example_commits example_events = Inr example_saved"
  by code_simp


section \<open>The edges and the collaborators\<close>

text \<open>
  C5. Whenever the function returns, every saved edge has two distinct ends, the smaller
  login (in the order of strings) as \<^verbatim>\<open>source\<close> and the larger as
  \<^verbatim>\<open>target\<close>; no two edges have the same pair of ends, and no edge is the
  inverse of another. This holds for every order of iteration over sets.
\<close>

theorem edges_canonical:
  assumes "process_collaboration_networks so i p c e = Inr out"
  shows "(\<forall>x\<in>set (collaboration_edges out). source x < target x) \<and>
         distinct (map (\<lambda>x. (source x, target x)) (collaboration_edges out)) \<and>
         (\<forall>x\<in>set (collaboration_edges out). \<forall>y\<in>set (collaboration_edges out).
            \<not> (source x = target y \<and> target x = source y))"
proof -
  from assms obtain idx where an: "analyse so idx = Inr out"
    using process_Inr by blast
  have es: "collaboration_edges out = edges_of (fst (build_graph so idx))"
    using an by (rule analyse_parts)
  have ok: "graph_ok (build_graph so idx)"
    by (rule graph_ok_build_graph)
  have 1: "\<forall>x\<in>set (collaboration_edges out). source x < target x"
    using ok by (auto simp: es set_edges_of mk_edge_sel graph_ok_def)
  have eq: "map (\<lambda>x. (source x, target x)) (map mk_edge (fst (build_graph so idx)))
        = map fst (fst (build_graph so idx))"
    by (simp add: mk_edge_sel)
  have "distinct (map (\<lambda>x. (source x, target x)) (map mk_edge (fst (build_graph so idx))))"
    unfolding eq using ok by (simp add: graph_ok_def)
  then have 2: "distinct (map (\<lambda>x. (source x, target x)) (collaboration_edges out))"
    unfolding es edges_of_def by (simp only: distinct_map_sort_desc)
  have 3: "\<not> (source x = target y \<and> target x = source y)"
    if "x \<in> set (collaboration_edges out)" "y \<in> set (collaboration_edges out)" for x y
  proof -
    have "source x < target x" "source y < target y"
      using 1 that by blast+
    then show ?thesis by (metis less_asym)
  qed
  show ?thesis using 1 2 3 by blast
qed

theorem edges_canonical_witness:
  "process_collaboration_networks (\<lambda>xs. xs)
     example_issues example_prs example_commits example_events = Inr example_saved \<and>
   list_all (\<lambda>x. source x < target x) (collaboration_edges example_saved) \<and>
   distinct (map (\<lambda>x. (source x, target x)) (collaboration_edges example_saved)) \<and>
   list_all (\<lambda>x. list_all (\<lambda>y. \<not> (source x = target y \<and> target x = source y))
      (collaboration_edges example_saved)) (collaboration_edges example_saved)"
  using example_run edges_canonical[OF example_run] unfolding list_all_iff by blast

text \<open>
  C6. Whenever the function returns, the weight of every saved edge is the length of its
  list of repositories, and both ends of the edge are contributors of every repository
  in that list.
\<close>

theorem weight_consistency:
  assumes "process_collaboration_networks so i p c e = Inr out"
    and "contributors_index i p c e = Inr idx"
    and "set_order_ok so"
  shows "\<forall>x\<in>set (collaboration_edges out).
           weight x = int (length (repos x)) \<and>
           (\<forall>r\<in>set (repos x).
              source x \<in> set (dd_lookup idx r) \<and> target x \<in> set (dd_lookup idx r))"
proof
  fix x
  assume x: "x \<in> set (collaboration_edges out)"
  have an: "analyse so idx = Inr out"
    using assms(1,2) by (simp add: process_analyse)
  have iok: "index_ok idx"
    using assms(2) by (rule index_ok_contributors_index)
  have es: "collaboration_edges out = edges_of (fst (build_graph so idx))"
    using an by (rule analyse_parts)
  from x obtain a b rs where kv: "((a, b), rs) \<in> set (fst (build_graph so idx))"
    and xe: "x = mk_edge ((a, b), rs)"
    by (auto simp: es set_edges_of)
  have rs: "dd_lookup (fst (build_graph so idx)) (a, b) = rs"
    using kv by (rule build_graph_entry)
  have "source x \<in> set (dd_lookup idx r) \<and> target x \<in> set (dd_lookup idx r)"
    if "r \<in> set (repos x)" for r
  proof -
    from that have "r \<in> set (dd_lookup (fst (build_graph so idx)) (a, b))"
      by (simp add: xe mk_edge_sel rs)
    then obtain cs where cs: "(r, cs) \<in> set idx" "a \<in> set (so cs)" "b \<in> set (so cs)"
      unfolding build_graph_repos by blast
    then show ?thesis
      using iok assms(3) by (simp add: xe mk_edge_sel index_lookup set_order_ok_set)
  qed
  then show "weight x = int (length (repos x)) \<and>
             (\<forall>r\<in>set (repos x).
                source x \<in> set (dd_lookup idx r) \<and> target x \<in> set (dd_lookup idx r))"
    by (simp add: xe mk_edge_sel)
qed

theorem weight_consistency_witness:
  "process_collaboration_networks (\<lambda>xs. xs)
     example_issues example_prs example_commits example_events = Inr example_saved \<and>
   contributors_index example_issues example_prs example_commits example_events
     = Inr example_index \<and>
   set_order_ok (\<lambda>xs. xs) \<and>
   list_all (\<lambda>x. weight x = int (length (repos x)) \<and>
      list_all (\<lambda>r. source x \<in> set (dd_lookup example_index r) \<and>
                     target x \<in> set (dd_lookup example_index r)) (repos x))
     (collaboration_edges example_saved)"
  using example_run example_index_run set_order_ok_id
    weight_consistency[OF example_run example_index_run set_order_ok_id]
  unfolding list_all_iff by blast

lemma is_collaborator_iff:
  assumes "analyse so idx = Inr out" and "set_order_ok so"
  shows "is_collaborator out a b \<longleftrightarrow>
           a \<noteq> b \<and> (\<exists>r cs. (r, cs) \<in> set idx \<and> a \<in> set cs \<and> b \<in> set cs)"
proof -
  let ?uc = "snd (build_graph so idx)"
  have ums: "user_metrics out = user_metrics_of so idx ?uc"
    using assms(1) by (rule analyse_parts)
  have "is_collaborator out a b \<longleftrightarrow> (\<exists>cs. (a, cs) \<in> set ?uc \<and> b \<in> set (so cs))"
    by (force simp: is_collaborator_def ums user_metrics_of_def set_sort_desc
        mk_user_metric_def case_prod_beta)
  also have "\<dots> \<longleftrightarrow> (\<exists>cs. (a, cs) \<in> set ?uc \<and> b \<in> set cs)"
    using assms(2) by (simp add: set_order_ok_set)
  also have "\<dots> \<longleftrightarrow> b \<in> set (dd_lookup ?uc a)"
  proof
    assume "\<exists>cs. (a, cs) \<in> set ?uc \<and> b \<in> set cs"
    then show "b \<in> set (dd_lookup ?uc a)"
      using build_graph_collab_entry by fastforce
  next
    assume b: "b \<in> set (dd_lookup ?uc a)"
    show "\<exists>cs. (a, cs) \<in> set ?uc \<and> b \<in> set cs"
    proof (cases "map_of ?uc a")
      case None
      then show ?thesis using b by (simp add: dd_lookup_def)
    next
      case (Some cs)
      then have "(a, cs) \<in> set ?uc" by (rule map_of_SomeD)
      then show ?thesis using b Some by (auto simp: dd_lookup_def)
    qed
  qed
  also have "\<dots> \<longleftrightarrow> a \<noteq> b \<and> (\<exists>r cs. (r, cs) \<in> set idx \<and> a \<in> set cs \<and> b \<in> set cs)"
    using assms(2) by (simp add: build_graph_collab set_order_ok_set)
  finally show ?thesis .
qed

lemma joined_iff_shared:
  assumes "analyse so idx = Inr out" and "set_order_ok so"
  shows "joined out a b \<longleftrightarrow>
           a \<noteq> b \<and> (\<exists>r cs. (r, cs) \<in> set idx \<and> a \<in> set cs \<and> b \<in> set cs)"
proof -
  let ?cr = "fst (build_graph so idx)"
  have es: "collaboration_edges out = edges_of ?cr"
    using assms(1) by (rule analyse_parts)
  have "joined out a b \<longleftrightarrow> (a, b) \<in> fst ` set ?cr \<or> (b, a) \<in> fst ` set ?cr"
    by (force simp: joined_def es set_edges_of mk_edge_sel)
  also have "\<dots> \<longleftrightarrow> a \<noteq> b \<and> (\<exists>r cs. (r, cs) \<in> set idx \<and> a \<in> set cs \<and> b \<in> set cs)"
    unfolding build_graph_key_iff using assms(2) by (auto simp: set_order_ok_set)
  finally show ?thesis .
qed

text \<open>
  C7. Whenever the function returns, the saved profile of \<open>a\<close> lists \<open>b\<close> as a
  collaborator if and only if the profile of \<open>b\<close> lists \<open>a\<close>, and if and only if a
  saved edge joins \<open>a\<close> and \<open>b\<close>.
\<close>

theorem collaborators_symmetric:
  assumes "process_collaboration_networks so i p c e = Inr out"
    and "set_order_ok so"
  shows "(is_collaborator out a b \<longleftrightarrow> is_collaborator out b a) \<and>
         (is_collaborator out a b \<longleftrightarrow> joined out a b)"
proof -
  from assms(1) obtain idx where an: "analyse so idx = Inr out"
    using process_Inr by blast
  show ?thesis
    unfolding is_collaborator_iff[OF an assms(2)] joined_iff_shared[OF an assms(2)]
    by blast
qed

theorem collaborators_symmetric_witness:
  "process_collaboration_networks (\<lambda>xs. xs)
     example_issues example_prs example_commits example_events = Inr example_saved \<and>
   set_order_ok (\<lambda>xs. xs) \<and>
   (is_collaborator example_saved ''carol'' ''bob'' \<longleftrightarrow>
      is_collaborator example_saved ''bob'' ''carol'') \<and>
   (is_collaborator example_saved ''carol'' ''bob'' \<longleftrightarrow> joined example_saved ''carol'' ''bob'') \<and>
   joined example_saved ''carol'' ''bob''"
proof -
  have "joined example_saved ''carol'' ''bob''"
    by (simp add: joined_def example_saved_def)
  then show ?thesis
    using example_run set_order_ok_id
      collaborators_symmetric[OF example_run set_order_ok_id, of "''carol''" "''bob''"]
    by blast
qed


section \<open>The order of the edges\<close>

text \<open>
  C2, as the code has it. Whenever the function returns, the saved edges are in
  descending order of weight, and the edges of any one weight \<open>w\<close> are in the order in
  which their pairs were first recorded by the loop of lines 56 to 68: the sort of line
  82 compares weights only and keeps ties as they were.
\<close>

theorem edges_sorted_stable:
  assumes "process_collaboration_networks so i p c e = Inr out"
    and "contributors_index i p c e = Inr idx"
  shows "sorted_wrt (\<lambda>x y. weight y \<le> weight x) (collaboration_edges out) \<and>
         filter (\<lambda>x. weight x = w) (collaboration_edges out)
           = filter (\<lambda>x. weight x = w) (map mk_edge (fst (build_graph so idx)))"
proof -
  have "analyse so idx = Inr out"
    using assms by (simp add: process_analyse)
  then have "collaboration_edges out = edges_of (fst (build_graph so idx))"
    by (rule analyse_parts)
  then show ?thesis
    by (simp add: edges_of_def sorted_sort_desc sort_desc_stable)
qed

theorem edges_sorted_stable_witness:
  "process_collaboration_networks (\<lambda>xs. xs)
     example_issues example_prs example_commits example_events = Inr example_saved \<and>
   contributors_index example_issues example_prs example_commits example_events
     = Inr example_index \<and>
   sorted_wrt (\<lambda>x y. weight y \<le> weight x) (collaboration_edges example_saved) \<and>
   filter (\<lambda>x. weight x = 1) (collaboration_edges example_saved)
     = filter (\<lambda>x. weight x = 1) (map mk_edge (fst (build_graph (\<lambda>xs. xs) example_index)))"
  using example_run example_index_run
    edges_sorted_stable[OF example_run example_index_run, of 1]
  by blast

text \<open>
  The order of the two edges below does not depend on the order of iteration over sets:
  each repository has two contributors, and either order of the two gives the same key.
\<close>

lemma ties_any_order:
  assumes "set_order_ok so"
  shows "map_sum id collaboration_edges
     (process_collaboration_networks so
        [[(''repo_name'', JStr ''R1''), (''user'', JObj [(''login'', JStr ''c'')])],
         [(''repo_name'', JStr ''R1''), (''user'', JObj [(''login'', JStr ''d'')])],
         [(''repo_name'', JStr ''R2''), (''user'', JObj [(''login'', JStr ''a'')])],
         [(''repo_name'', JStr ''R2''), (''user'', JObj [(''login'', JStr ''b'')])]]
        [] [] [])
   = Inr [\<lparr>source = ''c'', target = ''d'', weight = 1, repos = [JStr ''R1''],
            collaboration_type = ''same_repository''\<rparr>,
          \<lparr>source = ''a'', target = ''b'', weight = 1, repos = [JStr ''R2''],
            collaboration_type = ''same_repository''\<rparr>]"
proof -
  have two: "so [x, y] = [x, y] \<or> so [x, y] = [y, x]" for x y
  proof -
    have m: "mset (so [x, y]) = {#x, y#}"
      using assms by (simp add: set_order_ok_def)
    then have "length (so [x, y]) = 2"
      using mset_eq_length[of "so [x, y]" "[x, y]"] by simp
    then obtain u v where uv: "so [x, y] = [u, v]"
      by (auto simp: length_Suc_conv numeral_2_eq_2)
    then have "{#u, v#} = {#x, y#}" using m by simp
    then have "(u = x \<and> v = y) \<or> (u = y \<and> v = x)"
      by (auto simp: add_eq_conv_ex)
    then show ?thesis using uv by auto
  qed
  have idx: "contributors_index
        [[(''repo_name'', JStr ''R1''), (''user'', JObj [(''login'', JStr ''c'')])],
         [(''repo_name'', JStr ''R1''), (''user'', JObj [(''login'', JStr ''d'')])],
         [(''repo_name'', JStr ''R2''), (''user'', JObj [(''login'', JStr ''a'')])],
         [(''repo_name'', JStr ''R2''), (''user'', JObj [(''login'', JStr ''b'')])]]
        [] [] [] = Inr [(JStr ''R1'', [''c'', ''d'']), (JStr ''R2'', [''a'', ''b''])]"
    by (simp add: collect_defs)
  have g: "fst (build_graph so [(JStr ''R1'', [''c'', ''d'']), (JStr ''R2'', [''a'', ''b''])])
        = [((''c'', ''d''), [JStr ''R1'']), ((''a'', ''b''), [JStr ''R2''])]"
    using two[of "''c''" "''d''"] two[of "''a''" "''b''"]
    by (auto simp: build_graph_def link_repo_def link_def edge_key_def)
  obtain out where out: "analyse so [(JStr ''R1'', [''c'', ''d'']), (JStr ''R2'', [''a'', ''b''])] = Inr out"
    using analyse_total by blast
  have "collaboration_edges out
        = edges_of [((''c'', ''d''), [JStr ''R1'']), ((''a'', ''b''), [JStr ''R2''])]"
    using analyse_parts(1)[OF out] by (simp only: g)
  then show ?thesis
    by (simp add: process_analyse[OF idx] out edges_of_def sort_desc_def mk_edge_def)
qed

text \<open>
  C2 as claimed, that edges of equal weight are ordered by their logins, fails. With
  \<^verbatim>\<open>c\<close> and \<^verbatim>\<open>d\<close> on \<^verbatim>\<open>R1\<close> and \<^verbatim>\<open>a\<close> and \<^verbatim>\<open>b\<close> on
  \<^verbatim>\<open>R2\<close>, both edges have weight 1 and the edge of \<^verbatim>\<open>c\<close> and \<^verbatim>\<open>d\<close>
  comes first, although \<^verbatim>\<open>a\<close> is smaller than \<^verbatim>\<open>c\<close>.
\<close>

theorem edges_ties_counterexample:
  "map_sum id collaboration_edges
     (process_collaboration_networks id
        [[(''repo_name'', JStr ''R1''), (''user'', JObj [(''login'', JStr ''c'')])],
         [(''repo_name'', JStr ''R1''), (''user'', JObj [(''login'', JStr ''d'')])],
         [(''repo_name'', JStr ''R2''), (''user'', JObj [(''login'', JStr ''a'')])],
         [(''repo_name'', JStr ''R2''), (''user'', JObj [(''login'', JStr ''b'')])]]
        [] [] [])
   = Inr [\<lparr>source = ''c'', target = ''d'', weight = 1, repos = [JStr ''R1''],
            collaboration_type = ''same_repository''\<rparr>,
          \<lparr>source = ''a'', target = ''b'', weight = 1, repos = [JStr ''R2''],
            collaboration_type = ''same_repository''\<rparr>] \<and>
   ''a'' < ''c''"
  by code_simp

section \<open>Divisions\<close>

lemma potential_zero: "0 \<le> n \<Longrightarrow> n \<le> 1 \<Longrightarrow> n * (n - 1) div 2 = (0::int)"
proof -
  assume "0 \<le> n" "n \<le> 1"
  then have "n = 0 \<or> n = 1" by arith
  then show ?thesis by auto
qed

lemma list_all2_member:
  "list_all2 P xs ys \<Longrightarrow> y \<in> set ys \<Longrightarrow> \<exists>x\<in>set xs. P x y"
  by (induction rule: list_all2_induct) auto

lemma network_stats_of_fields:
  assumes "network_stats_of idx uc es cross = Inr ns"
  shows "total_users ns = int (length uc)"
    and "total_collaborations ns = int (length es)"
    and "total_repositories ns = int (length idx)"
    and "cross_repo_contributors ns = int (length cross)"
    and "average_size uc = Inr (avg_collaborators_per_user ns)"
    and "average_size idx = Inr (avg_contributors_per_repo ns)"
  using assms by (auto simp: network_stats_of_def split: sum.splits)

lemma repo_profile_member:
  assumes "repo_analysis_of so es idx = Inr ras" and "rp \<in> set ras"
  shows "\<exists>rc\<in>set idx. mk_repo_profile so es rc = Inr rp"
proof -
  from assms(1) obtain ps where ps: "map_err (mk_repo_profile so es) idx = Inr ps"
    and ras: "ras = sort_desc contributor_count ps"
    by (auto simp: repo_analysis_of_def split: sum.splits)
  have "list_all2 (\<lambda>x y. mk_repo_profile so es x = Inr y) idx ps"
    using ps by (rule map_err_Inr)
  moreover have "rp \<in> set ps"
    using assms(2) by (simp add: ras set_sort_desc)
  ultimately show ?thesis
    by (rule list_all2_member)
qed

lemma mk_repo_profile_fields:
  assumes "mk_repo_profile so es rc = Inr rp"
  shows "repo rp = fst rc"
    and "contributors rp = so (snd rc)"
    and "contributor_count rp = int (length (so (snd rc)))"
    and "potential_collaborations rp = contributor_count rp * (contributor_count rp - 1) div 2"
    and "actual_collaborations rp = int (length (filter (\<lambda>x. fst rc \<in> set (repos x)) es))"
    and "collaboration_density rp =
           (if potential_collaborations rp > 0
            then of_int (actual_collaborations rp) / of_int (potential_collaborations rp)
            else 0)"
  using assms
  by (auto simp: mk_repo_profile_def Let_def case_prod_beta truediv_def split: if_splits)

lemma process_no_division_error:
  "process_collaboration_networks so i p c e \<noteq> Inl ZeroDivisionError"
proof (cases "contributors_index i p c e")
  case (Inl err)
  have "fold_err f xs s \<noteq> Inl ZeroDivisionError"
    if "\<And>x s. f x s \<noteq> Inl ZeroDivisionError" for f :: "pydict \<Rightarrow> contributor_index \<Rightarrow> py_error + contributor_index" and xs s
    using that by (induction xs arbitrary: s) (auto split: sum.splits)
  moreover have a: "add_if_truthy r l idx \<noteq> Inl ZeroDivisionError" for r l idx
    by (auto simp: add_if_truthy_def split: json.splits)
  moreover have d: "collect_direct f rec r idx \<noteq> Inl ZeroDivisionError" for f rec r idx
    using a by (auto simp: collect_direct_def get_def split: sum.splits json.splits)
  moreover have g: "collect_guarded f rec r idx \<noteq> Inl ZeroDivisionError" for f rec r idx
    using a by (auto simp: collect_guarded_def Let_def get_def split: sum.splits json.splits)
  moreover have "collect_issue rec idx \<noteq> Inl ZeroDivisionError" for rec idx
    using d g by (auto simp: collect_issue_def Let_def split: sum.splits)
  ultimately have "collect_contributors s \<noteq> Inl ZeroDivisionError" for s
    by (auto simp: collect_contributors_def collect_pr_def collect_commit_def collect_event_def
        split: sum.splits)
  then show ?thesis
    using Inl
    by (auto simp: process_collaboration_networks_def contributors_index_def Let_def
        split: sum.splits)
next
  case (Inr idx)
  then show ?thesis
    using analyse_total[of so idx] by (auto simp: process_analyse)
qed

text \<open>
  C8. The function never ends with \<^verbatim>\<open>ZeroDivisionError\<close>. Whenever it returns, the
  density of every repository with at most one contributor is 0, the mean number of
  collaborators is 0 when there is no user, and the mean number of contributors is 0
  when there is no repository.
\<close>

theorem divisions_guarded:
  "process_collaboration_networks so i p c e \<noteq> Inl ZeroDivisionError \<and>
   (process_collaboration_networks so i p c e = Inr out \<longrightarrow>
      (\<forall>rp\<in>set (repo_analysis out). contributor_count rp \<le> 1 \<longrightarrow> collaboration_density rp = 0) \<and>
      (total_users (stats out) = 0 \<longrightarrow> avg_collaborators_per_user (stats out) = 0) \<and>
      (total_repositories (stats out) = 0 \<longrightarrow> avg_contributors_per_repo (stats out) = 0))"
proof (intro conjI impI)
  show "process_collaboration_networks so i p c e \<noteq> Inl ZeroDivisionError"
    by (rule process_no_division_error)
next
  assume "process_collaboration_networks so i p c e = Inr out"
  then obtain idx where an: "analyse so idx = Inr out"
    using process_Inr by blast
  have ra: "repo_analysis_of so (collaboration_edges out) idx = Inr (repo_analysis out)"
    using an by (rule analyse_parts)
  have ns: "network_stats_of idx (snd (build_graph so idx)) (collaboration_edges out)
              (cross_repo_of idx (snd (build_graph so idx))) = Inr (stats out)"
    using an by (rule analyse_parts)
  show "\<forall>rp\<in>set (repo_analysis out). contributor_count rp \<le> 1 \<longrightarrow> collaboration_density rp = 0"
  proof (intro ballI impI)
    fix rp
    assume rp: "rp \<in> set (repo_analysis out)" and le: "contributor_count rp \<le> 1"
    from repo_profile_member[OF ra rp] obtain rc where
      mk: "mk_repo_profile so (collaboration_edges out) rc = Inr rp" by blast
    have "0 \<le> contributor_count rp"
      by (simp add: mk_repo_profile_fields(3)[OF mk])
    then have "potential_collaborations rp = 0"
      using le by (simp add: mk_repo_profile_fields(4)[OF mk] potential_zero)
    then show "collaboration_density rp = 0"
      by (simp add: mk_repo_profile_fields(6)[OF mk])
  qed
  {
    assume "total_users (stats out) = 0"
    then have "snd (build_graph so idx) = []"
      by (simp add: network_stats_of_fields(1)[OF ns])
    then show "avg_collaborators_per_user (stats out) = 0"
      using network_stats_of_fields(5)[OF ns] by (simp add: average_size_def)
  }
  {
    assume "total_repositories (stats out) = 0"
    then have "idx = []"
      by (simp add: network_stats_of_fields(3)[OF ns])
    then show "avg_contributors_per_repo (stats out) = 0"
      using network_stats_of_fields(6)[OF ns] by (simp add: average_size_def)
  }
qed

lemma empty_run: "process_collaboration_networks (\<lambda>xs. xs) [] [] [] [] = Inr empty_saved"
  by code_simp

theorem divisions_guarded_witness:
  "process_collaboration_networks (\<lambda>xs. xs)
     example_issues example_prs example_commits example_events = Inr example_saved \<and>
   list_ex (\<lambda>rp. contributor_count rp \<le> 1) (repo_analysis example_saved) \<and>
   list_all (\<lambda>rp. contributor_count rp \<le> 1 \<longrightarrow> collaboration_density rp = 0)
     (repo_analysis example_saved) \<and>
   process_collaboration_networks (\<lambda>xs. xs) [] [] [] [] = Inr empty_saved \<and>
   total_users (stats empty_saved) = 0 \<and>
   avg_collaborators_per_user (stats empty_saved) = 0 \<and>
   total_repositories (stats empty_saved) = 0 \<and>
   avg_contributors_per_repo (stats empty_saved) = 0"
proof -
  have 1: "list_ex (\<lambda>rp. contributor_count rp \<le> 1) (repo_analysis example_saved)"
    by (simp add: example_saved_def)
  have 2: "total_users (stats empty_saved) = 0" "total_repositories (stats empty_saved) = 0"
    by (simp_all add: empty_saved_def)
  show ?thesis
    using 1 2 example_run empty_run
      divisions_guarded[of "\<lambda>xs. xs" example_issues example_prs example_commits example_events
        example_saved]
      divisions_guarded[of "\<lambda>xs. xs" "[]" "[]" "[]" "[]" empty_saved]
    unfolding list_all_iff by blast
qed


section \<open>The hubs\<close>

lemma hubs_analyse:
  assumes "analyse so idx = Inr out"
  shows "hubs out = sort_desc repo_count (cross_repo_of idx (snd (build_graph so idx)))"
proof -
  have "cross_repo_list out = hubs_of (cross_repo_of idx (snd (build_graph so idx)))"
    using assms by (rule analyse_parts)
  then show ?thesis
    by (simp add: hubs_def hubs_of_def sort_desc_def)
qed

lemma mk_hub_sel:
  "hub_user (mk_hub idx uc) = fst uc"
  "repositories (mk_hub idx uc) = repos_contributed idx (fst uc)"
  "repo_count (mk_hub idx uc) = int (length (repos_contributed idx (fst uc)))"
  "total_collaborators (mk_hub idx uc) = int (length (snd uc))"
  by (simp_all add: mk_hub_def case_prod_beta Let_def)

lemma mk_user_metric_sel:
  "user (mk_user_metric so idx uc) = fst uc"
  "collaborator_count (mk_user_metric so idx uc) = int (length (snd uc))"
  "collaborators (mk_user_metric so idx uc) = so (snd uc)"
  "repositories_contributed (mk_user_metric so idx uc) = int (length (repos_contributed idx (fst uc)))"
  by (simp_all add: mk_user_metric_def case_prod_beta)

lemma set_hubs:
  assumes "analyse so idx = Inr out"
  shows "set (hubs out) =
           mk_hub idx ` {uc \<in> set (snd (build_graph so idx)).
                           1 < length (repos_contributed idx (fst uc))}"
  by (auto simp: hubs_analyse[OF assms] set_sort_desc cross_repo_of_def)

lemma set_user_metrics:
  assumes "analyse so idx = Inr out"
  shows "set (user_metrics out) = mk_user_metric so idx ` set (snd (build_graph so idx))"
proof -
  have "user_metrics out = user_metrics_of so idx (snd (build_graph so idx))"
    using assms by (rule analyse_parts)
  then show ?thesis by (simp add: user_metrics_of_def set_sort_desc)
qed

lemma build_graph_user_iff:
  "a \<in> fst ` set (snd (build_graph so idx)) \<longleftrightarrow>
     (\<exists>b. a \<noteq> b \<and> (\<exists>r c. (r, c) \<in> set idx \<and> a \<in> set (so c) \<and> b \<in> set (so c)))"
proof -
  have ne: "\<forall>kv\<in>set (snd (build_graph so idx)). snd kv \<noteq> []"
    using graph_ok_build_graph[of so idx] by (simp add: graph_ok_def)
  have "a \<in> fst ` set (snd (build_graph so idx))
        \<longleftrightarrow> (\<exists>b. b \<in> set (dd_lookup (snd (build_graph so idx)) a))"
    unfolding key_iff_lookup[OF ne] by (cases "dd_lookup (snd (build_graph so idx)) a") auto
  then show ?thesis
    unfolding build_graph_collab by blast
qed

lemma build_graph_key_either:
  "(a, b) \<in> fst ` set (fst (build_graph so idx)) \<or> (b, a) \<in> fst ` set (fst (build_graph so idx))
     \<longleftrightarrow> a \<noteq> b \<and> (\<exists>r c. (r, c) \<in> set idx \<and> a \<in> set (so c) \<and> b \<in> set (so c))"
proof (cases a b rule: linorder_cases)
  case less
  then show ?thesis unfolding build_graph_key_iff by auto
next
  case equal
  then show ?thesis unfolding build_graph_key_iff by auto
next
  case greater
  then show ?thesis unfolding build_graph_key_iff by auto
qed

lemma user_iff_edge:
  assumes "analyse so idx = Inr out"
  shows "a \<in> fst ` set (snd (build_graph so idx)) \<longleftrightarrow>
           (\<exists>x\<in>set (collaboration_edges out). source x = a \<or> target x = a)"
proof -
  let ?cr = "fst (build_graph so idx)"
  have es: "collaboration_edges out = edges_of ?cr"
    using assms by (rule analyse_parts)
  have "(\<exists>x\<in>set (collaboration_edges out). source x = a \<or> target x = a)
        \<longleftrightarrow> (\<exists>b. (a, b) \<in> fst ` set ?cr \<or> (b, a) \<in> fst ` set ?cr)"
  proof
    assume "\<exists>x\<in>set (collaboration_edges out). source x = a \<or> target x = a"
    then obtain kv where kv: "kv \<in> set ?cr" "fst (fst kv) = a \<or> snd (fst kv) = a"
      by (auto simp: es set_edges_of mk_edge_sel)
    then have "fst kv = (a, snd (fst kv)) \<or> fst kv = (fst (fst kv), a)"
      by (metis prod.collapse)
    then show "\<exists>b. (a, b) \<in> fst ` set ?cr \<or> (b, a) \<in> fst ` set ?cr"
      using kv(1) by (metis imageI)
  next
    assume "\<exists>b. (a, b) \<in> fst ` set ?cr \<or> (b, a) \<in> fst ` set ?cr"
    then obtain b kv where "kv \<in> set ?cr" "fst kv = (a, b) \<or> fst kv = (b, a)"
      by (metis imageE)
    then have "mk_edge kv \<in> set (collaboration_edges out)"
      "source (mk_edge kv) = a \<or> target (mk_edge kv) = a"
      by (auto simp: es set_edges_of mk_edge_sel)
    then show "\<exists>x\<in>set (collaboration_edges out). source x = a \<or> target x = a"
      by blast
  qed
  also have "\<dots> \<longleftrightarrow> (\<exists>b. a \<noteq> b \<and> (\<exists>r c. (r, c) \<in> set idx \<and> a \<in> set (so c) \<and> b \<in> set (so c)))"
    unfolding build_graph_key_either ..
  finally show ?thesis
    unfolding build_graph_user_iff by simp
qed

text \<open>
  C1, as the code has it. Whenever the function returns, a login is in the list of hubs
  if and only if it is an end of some saved edge and more than one repository has it as
  a contributor. Every entry carries those repositories, their number as
  \<^verbatim>\<open>repo_count\<close>, and the number of collaborators of the login's profile; no login
  has two entries, and the entries are in descending order of \<^verbatim>\<open>repo_count\<close>.
\<close>

theorem hub_list_correct:
  assumes "process_collaboration_networks so i p c e = Inr out"
    and "contributors_index i p c e = Inr idx"
  shows "(login \<in> hub_user ` set (hubs out) \<longleftrightarrow>
            (\<exists>x\<in>set (collaboration_edges out). source x = login \<or> target x = login) \<and>
            1 < length (repos_contributed idx login)) \<and>
         (\<forall>h\<in>set (hubs out).
            repositories h = repos_contributed idx (hub_user h) \<and>
            repo_count h = int (length (repositories h)) \<and>
            (\<exists>m\<in>set (user_metrics out).
               user m = hub_user h \<and> collaborator_count m = total_collaborators h)) \<and>
         distinct (map hub_user (hubs out)) \<and>
         sorted_wrt (\<lambda>x y. repo_count y \<le> repo_count x) (hubs out)"
proof -
  let ?uc = "snd (build_graph so idx)"
  have an: "analyse so idx = Inr out"
    using assms by (simp add: process_analyse)
  have "login \<in> hub_user ` set (hubs out) \<longleftrightarrow>
          login \<in> fst ` set ?uc \<and> 1 < length (repos_contributed idx login)"
    by (force simp: set_hubs[OF an] mk_hub_sel)
  then have 1: "login \<in> hub_user ` set (hubs out) \<longleftrightarrow>
            (\<exists>x\<in>set (collaboration_edges out). source x = login \<or> target x = login) \<and>
            1 < length (repos_contributed idx login)"
    unfolding user_iff_edge[OF an] .
  have 2: "repositories h = repos_contributed idx (hub_user h) \<and>
           repo_count h = int (length (repositories h)) \<and>
           (\<exists>m\<in>set (user_metrics out).
              user m = hub_user h \<and> collaborator_count m = total_collaborators h)"
    if "h \<in> set (hubs out)" for h
  proof -
    from that obtain uc where uc: "uc \<in> set ?uc" and h: "h = mk_hub idx uc"
      unfolding set_hubs[OF an] by blast
    have "mk_user_metric so idx uc \<in> set (user_metrics out)"
      using uc by (simp add: set_user_metrics[OF an])
    then show ?thesis
      unfolding h mk_hub_sel by (auto simp: mk_user_metric_sel intro!: bexI[of _ "mk_user_metric so idx uc"])
  qed
  have "map hub_user (map (mk_hub idx) xs) = map fst xs" for xs
    by (simp add: mk_hub_sel)
  moreover have "distinct (map fst ?uc)"
    using graph_ok_build_graph[of so idx] by (simp add: graph_ok_def)
  ultimately have 3: "distinct (map hub_user (hubs out))"
    unfolding hubs_analyse[OF an] distinct_map_sort_desc cross_repo_of_def
    by (simp only: distinct_map_filter)
  have 4: "sorted_wrt (\<lambda>x y. repo_count y \<le> repo_count x) (hubs out)"
    unfolding hubs_analyse[OF an] by (rule sorted_sort_desc)
  show ?thesis using 1 2 3 4 by blast
qed

theorem hub_list_correct_witness:
  "process_collaboration_networks (\<lambda>xs. xs)
     example_issues example_prs example_commits example_events = Inr example_saved \<and>
   contributors_index example_issues example_prs example_commits example_events
     = Inr example_index \<and>
   (''bob'' \<in> hub_user ` set (hubs example_saved) \<longleftrightarrow>
      (\<exists>x\<in>set (collaboration_edges example_saved). source x = ''bob'' \<or> target x = ''bob'') \<and>
      1 < length (repos_contributed example_index ''bob'')) \<and>
   ''bob'' \<in> hub_user ` set (hubs example_saved) \<and>
   list_all (\<lambda>h. repositories h = repos_contributed example_index (hub_user h) \<and>
                  repo_count h = int (length (repositories h)) \<and>
                  (\<exists>m\<in>set (user_metrics example_saved).
                     user m = hub_user h \<and> collaborator_count m = total_collaborators h))
     (hubs example_saved) \<and>
   distinct (map hub_user (hubs example_saved)) \<and>
   sorted_wrt (\<lambda>x y. repo_count y \<le> repo_count x) (hubs example_saved)"
proof -
  have "''bob'' \<in> hub_user ` set (hubs example_saved)"
    by (simp add: hubs_def example_saved_def)
  then show ?thesis
    using example_run example_index_run
      hub_list_correct[OF example_run example_index_run, of "''bob''"]
    unfolding list_all_iff by blast
qed

text \<open>
  C1 as claimed, that every login of more than one repository is a hub, fails:
  \<^verbatim>\<open>alice\<close> is the only contributor of \<^verbatim>\<open>R1\<close> and of \<^verbatim>\<open>R2\<close>, two
  repositories have her as a contributor, and there is no hub.
\<close>

theorem hub_solo_counterexample:
  "contributors_index
     [[(''repo_name'', JStr ''R1''), (''user'', JObj [(''login'', JStr ''alice'')])],
      [(''repo_name'', JStr ''R2''), (''user'', JObj [(''login'', JStr ''alice'')])]] [] [] []
     = Inr [(JStr ''R1'', [''alice'']), (JStr ''R2'', [''alice''])] \<and>
   repos_contributed [(JStr ''R1'', [''alice'']), (JStr ''R2'', [''alice''])] ''alice''
     = [JStr ''R1'', JStr ''R2''] \<and>
   map_sum id hubs
     (process_collaboration_networks id
        [[(''repo_name'', JStr ''R1''), (''user'', JObj [(''login'', JStr ''alice'')])],
         [(''repo_name'', JStr ''R2''), (''user'', JObj [(''login'', JStr ''alice'')])]] [] [] [])
     = Inr []"
  by code_simp


section \<open>The density of a repository\<close>

lemma set_pairs_after_sorted:
  "sorted xs \<Longrightarrow> distinct xs \<Longrightarrow>
     set (pairs_after xs) = {(a, b). a < b \<and> a \<in> set xs \<and> b \<in> set xs}"
proof (induction xs)
  case Nil
  show ?case by simp
next
  case (Cons x xs)
  then have lt: "\<forall>y\<in>set xs. x < y"
    by (auto simp: less_le)
  have "set (pairs_after (x # xs)) = Pair x ` set xs \<union> set (pairs_after xs)"
    by simp
  also have "set (pairs_after xs) = {(a, b). a < b \<and> a \<in> set xs \<and> b \<in> set xs}"
    using Cons by simp
  also have "Pair x ` set xs \<union> {(a, b). a < b \<and> a \<in> set xs \<and> b \<in> set xs}
             = {(a, b). a < b \<and> a \<in> set (x # xs) \<and> b \<in> set (x # xs)}"
    using lt by (auto dest: less_asym)
  finally show ?case .
qed

lemma card_ordered_pairs:
  fixes xs :: "'a::linorder list"
  assumes "distinct xs"
  shows "int (card {(a, b). a < b \<and> a \<in> set xs \<and> b \<in> set xs})
           = int (length xs) * (int (length xs) - 1) div 2"
proof -
  let ?ys = "sort xs"
  have ys: "sorted ?ys" "distinct ?ys" "set ?ys = set xs" "length ?ys = length xs"
    using assms by simp_all
  have "{(a, b). a < b \<and> a \<in> set xs \<and> b \<in> set xs} = set (pairs_after ?ys)"
    using set_pairs_after_sorted[OF ys(1,2)] by (simp only: ys(3))
  then have "card {(a, b). a < b \<and> a \<in> set xs \<and> b \<in> set xs} = length (pairs_after ?ys)"
    using distinct_card[OF distinct_pairs_after[OF ys(2)]] by simp
  then show ?thesis
    by (simp only: length_pairs_after ys(4))
qed

lemma edges_with_repo:
  assumes "index_ok idx" and "(r, cs) \<in> set idx" and "set_order_ok so"
  shows "fst ` {kv \<in> set (fst (build_graph so idx)). r \<in> set (snd kv)}
           = {(a, b). a < b \<and> a \<in> set cs \<and> b \<in> set cs}"
proof -
  let ?cr = "fst (build_graph so idx)"
  have uniq: "c = cs" if "(r, c) \<in> set idx" for c
    using index_lookup[OF assms(1,2)] index_lookup[OF assms(1) that] by simp
  have so: "set (so cs) = set cs"
    using assms(3) by (rule set_order_ok_set)
  have shared: "(\<exists>c. (r, c) \<in> set idx \<and> a \<in> set (so c) \<and> b \<in> set (so c))
                  \<longleftrightarrow> a \<in> set cs \<and> b \<in> set cs" for a b
  proof
    assume "\<exists>c. (r, c) \<in> set idx \<and> a \<in> set (so c) \<and> b \<in> set (so c)"
    then obtain c where c: "(r, c) \<in> set idx" "a \<in> set (so c)" "b \<in> set (so c)"
      by blast
    have "c = cs" using c(1) by (rule uniq)
    then show "a \<in> set cs \<and> b \<in> set cs"
      using c(2,3) so by simp
  next
    assume "a \<in> set cs \<and> b \<in> set cs"
    then have "(r, cs) \<in> set idx \<and> a \<in> set (so cs) \<and> b \<in> set (so cs)"
      using assms(2) so by simp
    then show "\<exists>c. (r, c) \<in> set idx \<and> a \<in> set (so c) \<and> b \<in> set (so c)"
      by (rule exI)
  qed
  have mem: "r \<in> set (dd_lookup ?cr (a, b)) \<longleftrightarrow> a < b \<and> a \<in> set cs \<and> b \<in> set cs" for a b
    by (simp only: build_graph_repos shared)
  show ?thesis
  proof (intro set_eqI iffI)
    fix k
    assume "k \<in> fst ` {kv \<in> set ?cr. r \<in> set (snd kv)}"
    then obtain kv where kv0: "kv \<in> set ?cr" "r \<in> set (snd kv)" "k = fst kv"
      by blast
    define rs where "rs = snd kv"
    have kv: "(k, rs) \<in> set ?cr" "r \<in> set rs"
      using kv0 by (simp_all add: rs_def)
    then have "r \<in> set (dd_lookup ?cr (fst k, snd k))"
      using build_graph_entry[OF kv(1)] by simp
    then show "k \<in> {(a, b). a < b \<and> a \<in> set cs \<and> b \<in> set cs}"
      unfolding mem by (simp add: case_prod_beta)
  next
    fix k
    assume "k \<in> {(a, b). a < b \<and> a \<in> set cs \<and> b \<in> set cs}"
    then have r: "r \<in> set (dd_lookup ?cr k)"
      using mem[of "fst k" "snd k"] by (simp add: case_prod_beta)
    show "k \<in> fst ` {kv \<in> set ?cr. r \<in> set (snd kv)}"
    proof (cases "map_of ?cr k")
      case None
      then show ?thesis using r by (simp add: dd_lookup_def)
    next
      case (Some rs)
      then have "(k, rs) \<in> set ?cr" by (rule map_of_SomeD)
      moreover have "r \<in> set rs" using r Some by (simp add: dd_lookup_def)
      ultimately have "(k, rs) \<in> {kv \<in> set ?cr. r \<in> set (snd kv)}"
        by simp
      then show ?thesis
        by (rule rev_image_eqI) simp
    qed
  qed
qed

lemma count_edges_with_repo:
  assumes "index_ok idx" and "(r, cs) \<in> set idx" and "set_order_ok so"
  shows "int (length (filter (\<lambda>x. r \<in> set (repos x)) (edges_of (fst (build_graph so idx)))))
           = int (length cs) * (int (length cs) - 1) div 2"
proof -
  let ?cr = "fst (build_graph so idx)"
  have dk: "distinct (map fst ?cr)"
    using graph_ok_build_graph[of so idx] by (simp add: graph_ok_def)
  then have d: "distinct ?cr" and inj: "inj_on fst (set ?cr)"
    by (simp_all add: distinct_map)
  have dcs: "distinct cs"
    using assms(1,2) by (auto simp: index_ok_def)
  have "length (filter (\<lambda>x. r \<in> set (repos x)) (edges_of ?cr))
        = length (filter (\<lambda>x. r \<in> set (repos x)) (map mk_edge ?cr))"
    by (simp add: edges_of_def length_filter_sort_desc)
  also have "\<dots> = length (filter (\<lambda>kv. r \<in> set (snd kv)) ?cr)"
    by (simp add: filter_map o_def mk_edge_sel)
  also have "\<dots> = card {kv \<in> set ?cr. r \<in> set (snd kv)}"
    using distinct_card[OF distinct_filter[OF d, of "\<lambda>kv. r \<in> set (snd kv)"]] by simp
  also have "\<dots> = card (fst ` {kv \<in> set ?cr. r \<in> set (snd kv)})"
    by (rule card_image[symmetric]) (rule inj_on_subset[OF inj], blast)
  also have "\<dots> = card {(a, b). a < b \<and> a \<in> set cs \<and> b \<in> set cs}"
    by (simp only: edges_with_repo[OF assms])
  finally show ?thesis
    by (simp only: card_ordered_pairs[OF dcs])
qed

lemma potential_positive: "2 \<le> n \<Longrightarrow> 0 < n * (n - 1) div (2::int)"
proof -
  assume n: "2 \<le> n"
  have "2 * 1 \<le> n * (n - 1)"
    using n by (intro mult_mono) auto
  then show ?thesis by simp
qed

lemma repo_profiles_of_index:
  assumes "repo_analysis_of so es idx = Inr ras"
  shows "repo ` set ras = fst ` set idx"
proof -
  from assms obtain ps where ps: "map_err (mk_repo_profile so es) idx = Inr ps"
    and ras: "ras = sort_desc contributor_count ps"
    by (auto simp: repo_analysis_of_def split: sum.splits)
  have "list_all2 (\<lambda>x y. mk_repo_profile so es x = Inr y) idx ps"
    using ps by (rule map_err_Inr)
  then have "map repo ps = map fst idx"
    by (induction rule: list_all2_induct) (simp_all add: mk_repo_profile_fields(1))
  then have "set (map repo ps) = set (map fst idx)"
    by simp
  then show ?thesis
    by (simp add: ras set_sort_desc)
qed

text \<open>
  C10. Whenever the function returns, the saved profiles are those of the repositories
  that have a contributor; in each, the count of contributors is the size of the
  repository's contributor set, the actual collaborations equal the potential ones, and
  the density is 1 when there are two contributors or more and 0 otherwise.
\<close>

theorem density_is_one_or_zero:
  assumes "process_collaboration_networks so i p c e = Inr out"
    and "contributors_index i p c e = Inr idx"
    and "set_order_ok so"
  shows "repo ` set (repo_analysis out) = fst ` set idx \<and>
         (\<forall>rp\<in>set (repo_analysis out).
            contributor_count rp = int (length (dd_lookup idx (repo rp))) \<and>
            actual_collaborations rp = potential_collaborations rp \<and>
            collaboration_density rp = (if 2 \<le> contributor_count rp then 1 else 0))"
proof (intro conjI ballI)
  have an: "analyse so idx = Inr out"
    using assms(1,2) by (simp add: process_analyse)
  have iok: "index_ok idx"
    using assms(2) by (rule index_ok_contributors_index)
  have es: "collaboration_edges out = edges_of (fst (build_graph so idx))"
    using an by (rule analyse_parts)
  have ra: "repo_analysis_of so (collaboration_edges out) idx = Inr (repo_analysis out)"
    using an by (rule analyse_parts)
  show "repo ` set (repo_analysis out) = fst ` set idx"
    using ra by (rule repo_profiles_of_index)
  fix rp
  assume "rp \<in> set (repo_analysis out)"
  from repo_profile_member[OF ra this] obtain r cs where
    rc: "(r, cs) \<in> set idx" and mk: "mk_repo_profile so (collaboration_edges out) (r, cs) = Inr rp"
    by auto
  note f = mk_repo_profile_fields[OF mk]
  have n: "contributor_count rp = int (length cs)"
    using assms(3) by (simp add: f(3) set_order_ok_length)
  show 1: "contributor_count rp = int (length (dd_lookup idx (repo rp)))"
    using iok rc by (simp add: n f(1) index_lookup)
  have "actual_collaborations rp = int (length cs) * (int (length cs) - 1) div 2"
    using count_edges_with_repo[OF iok rc assms(3)] by (simp add: f(5) es)
  then show 2: "actual_collaborations rp = potential_collaborations rp"
    by (simp add: f(4) n)
  show "collaboration_density rp = (if 2 \<le> contributor_count rp then 1 else 0)"
  proof (cases "2 \<le> contributor_count rp")
    case True
    then have "0 < potential_collaborations rp"
      unfolding f(4) by (rule potential_positive)
    then show ?thesis
      using True by (simp add: f(6) 2)
  next
    case False
    then have "potential_collaborations rp = 0"
      unfolding f(4) by (intro potential_zero) (simp_all add: n)
    then show ?thesis
      using False by (simp add: f(6))
  qed
qed

theorem density_is_one_or_zero_witness:
  "process_collaboration_networks (\<lambda>xs. xs)
     example_issues example_prs example_commits example_events = Inr example_saved \<and>
   contributors_index example_issues example_prs example_commits example_events
     = Inr example_index \<and>
   set_order_ok (\<lambda>xs. xs) \<and>
   repo ` set (repo_analysis example_saved) = fst ` set example_index \<and>
   list_all (\<lambda>rp. contributor_count rp = int (length (dd_lookup example_index (repo rp))) \<and>
                   actual_collaborations rp = potential_collaborations rp \<and>
                   collaboration_density rp = (if 2 \<le> contributor_count rp then 1 else 0))
     (repo_analysis example_saved)"
  using example_run example_index_run set_order_ok_id
    density_is_one_or_zero[OF example_run example_index_run set_order_ok_id]
  unfolding list_all_iff by blast


section \<open>Records that the loops do not tolerate\<close>

text \<open>
  The loop of lines 21 to 23 changes none of the four lists, whatever they hold.
\<close>

lemma skip_step_lists:
  "issues_data (skip_step l s) = issues_data s"
  "prs_data (skip_step l s) = prs_data s"
  "commits_data (skip_step l s) = commits_data s"
  "issue_events_data (skip_step l s) = issue_events_data s"
  by (simp_all add: skip_step_def Let_def split: list.splits)

lemma skip_metadata_lists:
  "issues_data (skip_metadata s) = issues_data s"
  "prs_data (skip_metadata s) = prs_data s"
  "commits_data (skip_metadata s) = commits_data s"
  "issue_events_data (skip_metadata s) = issue_events_data s"
  by (simp_all add: skip_metadata_def skip_step_lists)

text \<open>
  The two ways of reading a login. A field that is missing adds nothing either way. A
  field that is null adds nothing where the read is guarded (\<^verbatim>\<open>assignee\<close>,
  \<^verbatim>\<open>author\<close>, \<^verbatim>\<open>actor\<close>) and raises where it is not (\<^verbatim>\<open>user\<close>). A
  record without \<^verbatim>\<open>repo_name\<close> counts for the repository \<^verbatim>\<open>unknown\<close>, and an
  issue with a reporter and an assignee adds both.
\<close>

lemma collect_direct_absent:
  "map_of rec field = None \<Longrightarrow> collect_direct field rec r idx = Inr idx"
  by (simp add: collect_direct_def dict_get_def get_def add_if_truthy_def)

lemma collect_guarded_absent:
  "map_of rec field = None \<Longrightarrow> collect_guarded field rec r idx = Inr idx"
  by (simp add: collect_guarded_def dict_get_def truthy_def)

lemma collect_direct_null:
  "map_of rec field = Some JNull \<Longrightarrow> collect_direct field rec r idx = Inl AttributeError"
  by (simp add: collect_direct_def dict_get_def get_def)

lemma collect_guarded_null:
  "map_of rec field = Some JNull \<Longrightarrow> collect_guarded field rec r idx = Inr idx"
  by (simp add: collect_guarded_def dict_get_def truthy_def)

lemma collect_direct_login:
  "map_of rec field = Some (JObj a) \<Longrightarrow> map_of a ''login'' = Some (JStr s) \<Longrightarrow> s \<noteq> [] \<Longrightarrow>
     hashable r \<Longrightarrow> collect_direct field rec r idx = Inr (dd_add r s idx)"
  by (simp add: collect_direct_def dict_get_def get_def add_if_truthy_def)

lemma collect_guarded_login:
  "map_of rec field = Some (JObj a) \<Longrightarrow> map_of a ''login'' = Some (JStr s) \<Longrightarrow> s \<noteq> [] \<Longrightarrow>
     hashable r \<Longrightarrow> collect_guarded field rec r idx = Inr (dd_add r s idx)"
  by (auto simp: collect_guarded_def dict_get_def get_def add_if_truthy_def truthy_def)

lemma repo_of_absent: "map_of rec ''repo_name'' = None \<Longrightarrow> repo_of rec = JStr ''unknown''"
  by (simp add: repo_of_def dict_get_def)

lemma collect_issue_both:
  "map_of issue ''user'' = Some (JObj u) \<Longrightarrow> map_of u ''login'' = Some (JStr s) \<Longrightarrow> s \<noteq> [] \<Longrightarrow>
   map_of issue ''assignee'' = Some (JObj a) \<Longrightarrow> map_of a ''login'' = Some (JStr t) \<Longrightarrow> t \<noteq> [] \<Longrightarrow>
   hashable (repo_of issue) \<Longrightarrow>
     collect_issue issue idx = Inr (dd_add (repo_of issue) t (dd_add (repo_of issue) s idx))"
  by (simp add: collect_issue_def Let_def collect_direct_login collect_guarded_login)

text \<open>
  C3. The claim: a leading record with the key \<^verbatim>\<open>_metadata\<close> is skipped and has no
  effect on the contributor sets. The loop of lines 21 to 23 assigns the shortened list
  to its own variable only, so the record is read as an issue like any other: with the
  record in front, its login \<^verbatim>\<open>alice\<close> is a contributor of \<^verbatim>\<open>R1\<close>; without it,
  only \<^verbatim>\<open>bob\<close> is.
\<close>

theorem metadata_entry_not_skipped:
  "has_key ''_metadata''
     [(''_metadata'', JObj []), (''repo_name'', JStr ''R1''),
      (''user'', JObj [(''login'', JStr ''alice'')])] \<and>
   contributors_index
     [[(''_metadata'', JObj []), (''repo_name'', JStr ''R1''),
       (''user'', JObj [(''login'', JStr ''alice'')])],
      [(''repo_name'', JStr ''R1''), (''user'', JObj [(''login'', JStr ''bob'')])]] [] [] []
     = Inr [(JStr ''R1'', [''alice'', ''bob''])] \<and>
   contributors_index
     [[(''repo_name'', JStr ''R1''), (''user'', JObj [(''login'', JStr ''bob'')])]] [] [] []
     = Inr [(JStr ''R1'', [''bob''])]"
  by (simp add: collect_defs)

text \<open>
  C4. The claim: a record with a missing or null nested field, in particular an issue
  whose \<^verbatim>\<open>user\<close> is present but null, contributes nothing and never raises. Line 31
  calls \<^verbatim>\<open>.get('login')\<close> on the null value: the run ends with
  \<^verbatim>\<open>AttributeError\<close>, whatever the order of iteration over sets.
\<close>

theorem null_user_issue_raises:
  "process_collaboration_networks so
     [[(''repo_name'', JStr ''R1''), (''user'', JNull)]] [] [] [] = Inl AttributeError"
  by (simp add: process_collaboration_networks_def collect_defs)

text \<open>
  C9. The claim: a record that lacks an actor login entirely is dropped and contributes
  no pair. A pull request whose \<^verbatim>\<open>user\<close> is null lacks one; line 38 reads it as
  line 31 reads an issue, and the run ends with \<^verbatim>\<open>AttributeError\<close> instead of
  dropping the record.
\<close>

theorem null_user_pull_request_raises:
  "process_collaboration_networks so []
     [[(''repo_name'', JStr ''R1''), (''user'', JNull)]] [] [] = Inl AttributeError"
  by (simp add: process_collaboration_networks_def collect_defs)

end
